theory Spec2Isabelle
  imports Complex_Main "HOL-Library.Monad_Syntax"
begin

section \<open>JavaScript numbers\<close>

text \<open>
  A JavaScript number is an IEEE double: a finite value, one of the two infinities, or NaN.
  Finite values are modelled by the real number they denote. Signed zero is not
  distinguished. The operations are the ones the source applies: \<^verbatim>\<open><\<close>, \<^verbatim>\<open><=\<close>, \<^verbatim>\<open>>=\<close>, \<^verbatim>\<open>+\<close>,
  \<^verbatim>\<open>*\<close>, \<^verbatim>\<open>/\<close>, \<^verbatim>\<open>Math.min\<close>, \<^verbatim>\<open>Math.max\<close>, \<^verbatim>\<open>isNaN\<close> and the integer conversions of typed
  arrays and \<^verbatim>\<open>DataView\<close>. The arithmetic operations of this section return the exact
  result; they serve the sample conversion, whose products are exact in a double, and
  the progress values, of which only the order matters. The operations that round every
  result to a double are defined further down and serve the subtitle times and the
  length of the offline rendering context.
\<close>

datatype jsnum = Fin real | PInf | NInf | NaN

fun js_lt :: "jsnum \<Rightarrow> jsnum \<Rightarrow> bool" where
  "js_lt NaN _ = False"
| "js_lt _ NaN = False"
| "js_lt (Fin a) (Fin b) = (a < b)"
| "js_lt PInf _ = False"
| "js_lt _ PInf = True"
| "js_lt NInf NInf = False"
| "js_lt NInf (Fin b) = True"
| "js_lt (Fin a) NInf = False"

fun js_le :: "jsnum \<Rightarrow> jsnum \<Rightarrow> bool" where
  "js_le NaN _ = False"
| "js_le _ NaN = False"
| "js_le (Fin a) (Fin b) = (a \<le> b)"
| "js_le NInf _ = True"
| "js_le _ PInf = True"
| "js_le PInf _ = False"
| "js_le (Fin a) NInf = False"

definition js_ge :: "jsnum \<Rightarrow> jsnum \<Rightarrow> bool" where
  "js_ge a b = js_le b a"

definition isNaN :: "jsnum \<Rightarrow> bool" where
  "isNaN x = (x = NaN)"

definition Math_min :: "jsnum \<Rightarrow> jsnum \<Rightarrow> jsnum" where
  "Math_min a b = (if isNaN a \<or> isNaN b then NaN else if js_lt b a then b else a)"

definition Math_max :: "jsnum \<Rightarrow> jsnum \<Rightarrow> jsnum" where
  "Math_max a b = (if isNaN a \<or> isNaN b then NaN else if js_lt a b then b else a)"

fun js_mul :: "jsnum \<Rightarrow> jsnum \<Rightarrow> jsnum" where
  "js_mul NaN _ = NaN"
| "js_mul _ NaN = NaN"
| "js_mul (Fin a) (Fin b) = Fin (a * b)"
| "js_mul (Fin a) PInf = (if a = 0 then NaN else if 0 < a then PInf else NInf)"
| "js_mul (Fin a) NInf = (if a = 0 then NaN else if 0 < a then NInf else PInf)"
| "js_mul PInf (Fin b) = (if b = 0 then NaN else if 0 < b then PInf else NInf)"
| "js_mul NInf (Fin b) = (if b = 0 then NaN else if 0 < b then NInf else PInf)"
| "js_mul PInf PInf = PInf"
| "js_mul PInf NInf = NInf"
| "js_mul NInf PInf = NInf"
| "js_mul NInf NInf = PInf"

fun js_add :: "jsnum \<Rightarrow> jsnum \<Rightarrow> jsnum" where
  "js_add NaN _ = NaN"
| "js_add _ NaN = NaN"
| "js_add (Fin a) (Fin b) = Fin (a + b)"
| "js_add PInf NInf = NaN"
| "js_add NInf PInf = NaN"
| "js_add PInf _ = PInf"
| "js_add NInf _ = NInf"
| "js_add _ PInf = PInf"
| "js_add _ NInf = NInf"

text \<open>Rounding towards zero, the first step of every ECMAScript integer conversion.\<close>

definition js_trunc :: "real \<Rightarrow> int" where
  "js_trunc r = (if r < 0 then - \<lfloor>- r\<rfloor> else \<lfloor>r\<rfloor>)"

text \<open>
  \<^verbatim>\<open>ToInt16\<close>, applied by \<^verbatim>\<open>DataView.setInt16\<close> and by a store into an \<^verbatim>\<open>Int16Array\<close>:
  a non-finite number becomes 0, a finite one is truncated and reduced modulo \<open>2^16\<close>
  into the signed range.
\<close>

definition ToInt16 :: "jsnum \<Rightarrow> int" where
  "ToInt16 x = (case x of
      Fin r \<Rightarrow> (let m = js_trunc r mod 65536 in if 32768 \<le> m then m - 65536 else m)
    | _ \<Rightarrow> 0)"

text \<open>\<^verbatim>\<open>ToUint32\<close> and \<^verbatim>\<open>ToUint16\<close>, applied by \<^verbatim>\<open>setUint32\<close>, \<^verbatim>\<open>setUint16\<close> and
  by Web IDL for an \<^verbatim>\<open>unsigned long\<close> argument.\<close>

definition ToUint32 :: "jsnum \<Rightarrow> nat" where
  "ToUint32 x = (case x of Fin r \<Rightarrow> nat (js_trunc r mod 4294967296) | _ \<Rightarrow> 0)"

definition ToUint16 :: "jsnum \<Rightarrow> nat" where
  "ToUint16 x = (case x of Fin r \<Rightarrow> nat (js_trunc r mod 65536) | _ \<Rightarrow> 0)"

section \<open>Sample conversion to 16-bit PCM\<close>

text \<open>
  The expression shared by the sample loop of \<^verbatim>\<open>audioBufferToWav\<close> and by
  \<^verbatim>\<open>floatTo16BitPCM\<close> in \<^verbatim>\<open>audioBufferToMp3\<close>:
  \<^verbatim>\<open>const s = Math.max(-1, Math.min(1, x)); s < 0 ? s * 0x8000 : s * 0x7FFF\<close>.
  The samples come from a \<^verbatim>\<open>Float32Array\<close>; the product of a 24-bit significand with
  32768 or 32767 is exact in a double, so the real product is the computed one.
\<close>

definition scaleSample :: "jsnum \<Rightarrow> jsnum" where
  "scaleSample x =
     (let s = Math_max (Fin (- 1)) (Math_min (Fin 1) x)
      in if js_lt s (Fin 0) then js_mul s (Fin 32768) else js_mul s (Fin 32767))"

definition floatTo16BitPCM :: "jsnum list \<Rightarrow> int list" where
  "floatTo16BitPCM input = map (\<lambda>x. ToInt16 (scaleSample x)) input"

section \<open>Peak envelope\<close>

text \<open>
  The peak computation of \<^verbatim>\<open>WaveformTimeline\<close> and \<^verbatim>\<open>AudioTrimmerTool\<close> (the two copies
  are the same code). \<^verbatim>\<open>Math.ceil(channels.length / buckets)\<close> is the integer ceiling for
  every array length a browser allocates. The inner loop visits \<open>j = 0, \<dots>, step - 1\<close> and
  skips the indices past the end of the channel; the outer loop stores the pair of bucket
  \<open>i\<close> at \<open>2 i\<close> and \<open>2 i + 1\<close> of a zero-filled array of \<open>2 \<times> buckets\<close> floats.
\<close>

definition buckets :: nat where
  "buckets = 2000"

definition peakStep :: "nat \<Rightarrow> nat \<Rightarrow> nat" where
  "peakStep len b = (if b = 0 then 0 else (len + b - 1) div b)"

definition peakVisit :: "real list \<Rightarrow> nat \<Rightarrow> real \<times> real \<Rightarrow> real \<times> real" where
  "peakVisit channels idx mm =
     (if idx < length channels
      then (let val = channels ! idx;
                mn = (if val < fst mm then val else fst mm);
                mx = (if val > snd mm then val else snd mm)
            in (mn, mx))
      else mm)"

definition peakBucket :: "real list \<Rightarrow> nat \<Rightarrow> nat \<Rightarrow> real \<times> real" where
  "peakBucket channels step i =
     fold (\<lambda>j mm. peakVisit channels (i * step + j) mm) [0..<step] (1, - 1)"

definition peakStore :: "real list \<Rightarrow> nat \<Rightarrow> nat \<Rightarrow> real list \<Rightarrow> real list" where
  "peakStore channels step i peaks =
     (let mm = peakBucket channels step i
      in (peaks[i * 2 := fst mm])[i * 2 + 1 := snd mm])"

definition computePeaksWith :: "nat \<Rightarrow> real list \<Rightarrow> real list" where
  "computePeaksWith b channels =
     (let step = peakStep (length channels) b
      in fold (peakStore channels step) [0..<b] (replicate (b * 2) 0))"

definition computePeaks :: "real list \<Rightarrow> real list" where
  "computePeaks channels = computePeaksWith buckets channels"

section \<open>Caption cues and the active-cue lookup\<close>

record Subtitle =
  id' :: nat
  startTime :: jsnum
  endTime :: jsnum
  text' :: "nat list"

text \<open>
  \<^verbatim>\<open>subtitles.find(s => currentTime >= s.startTime && currentTime <= s.endTime)\<close>;
  \<^verbatim>\<open>undefined\<close> is \<open>None\<close>.
\<close>

definition activeSubtitle :: "Subtitle list \<Rightarrow> jsnum \<Rightarrow> Subtitle option" where
  "activeSubtitle subtitles t =
     List.find (\<lambda>s. js_ge t (startTime s) \<and> js_le t (endTime s)) subtitles"

section \<open>PCM container writer\<close>

text \<open>
  A decoded audio buffer: its sample rate and one \<^verbatim>\<open>Float32Array\<close> per channel.
  \<^verbatim>\<open>numberOfChannels\<close> is the number of channel arrays; \<^verbatim>\<open>getChannelData(c)\<close> throws for
  a channel index out of range, which is \<open>None\<close> here. A valid buffer has at least one
  channel and all channels of the same length (the frame count).
\<close>

record AudioBuffer =
  sampleRate :: real
  channelData :: "jsnum list list"

definition numberOfChannels :: "AudioBuffer \<Rightarrow> nat" where
  "numberOfChannels buffer = length (channelData buffer)"

definition frameCount :: "AudioBuffer \<Rightarrow> nat" where
  "frameCount buffer = (case channelData buffer of [] \<Rightarrow> 0 | c # _ \<Rightarrow> length c)"

definition validBuffer :: "AudioBuffer \<Rightarrow> bool" where
  "validBuffer buffer =
     (channelData buffer \<noteq> [] \<and> list_all (\<lambda>c. length c = frameCount buffer) (channelData buffer))"

definition getChannelData :: "AudioBuffer \<Rightarrow> nat \<Rightarrow> jsnum list option" where
  "getChannelData buffer c =
     (if c < numberOfChannels buffer then Some (channelData buffer ! c) else None)"

text \<open>
  A \<^verbatim>\<open>DataView\<close> over an \<^verbatim>\<open>ArrayBuffer\<close> is a list of bytes. Every setter throws a
  \<^verbatim>\<open>RangeError\<close> (\<open>None\<close>) when the value does not fit between the offset and the end of
  the buffer, and otherwise stores the value little-endian (the source passes \<^verbatim>\<open>true\<close>).
\<close>

type_synonym bytes = "nat list"

definition lit :: "string \<Rightarrow> nat list" where
  "lit s = map of_char s"

definition setUint8 :: "bytes \<Rightarrow> nat \<Rightarrow> nat \<Rightarrow> bytes option" where
  "setUint8 view off v =
     (if off + 1 \<le> length view then Some (view[off := v mod 256]) else None)"

definition storeLE16 :: "bytes \<Rightarrow> nat \<Rightarrow> nat \<Rightarrow> bytes" where
  "storeLE16 view off v = (view[off := v mod 256])[off + 1 := v div 256 mod 256]"

definition storeLE32 :: "bytes \<Rightarrow> nat \<Rightarrow> nat \<Rightarrow> bytes" where
  "storeLE32 view off v =
     (((view[off := v mod 256])[off + 1 := v div 256 mod 256])
        [off + 2 := v div 65536 mod 256])[off + 3 := v div 16777216 mod 256]"

definition setUint16 :: "bytes \<Rightarrow> nat \<Rightarrow> jsnum \<Rightarrow> bytes option" where
  "setUint16 view off v =
     (if off + 2 \<le> length view then Some (storeLE16 view off (ToUint16 v)) else None)"

definition setUint32 :: "bytes \<Rightarrow> nat \<Rightarrow> jsnum \<Rightarrow> bytes option" where
  "setUint32 view off v =
     (if off + 4 \<le> length view then Some (storeLE32 view off (ToUint32 v)) else None)"

definition setInt16 :: "bytes \<Rightarrow> nat \<Rightarrow> jsnum \<Rightarrow> bytes option" where
  "setInt16 view off v =
     (if off + 2 \<le> length view
      then Some (storeLE16 view off (nat (ToInt16 v mod 65536))) else None)"

definition getUint32 :: "bytes \<Rightarrow> nat \<Rightarrow> nat" where
  "getUint32 view off =
     view ! off + 256 * view ! (off + 1) + 65536 * view ! (off + 2) + 16777216 * view ! (off + 3)"

definition getUint16 :: "bytes \<Rightarrow> nat \<Rightarrow> nat" where
  "getUint16 view off = view ! off + 256 * view ! (off + 1)"

fun writeString :: "bytes \<Rightarrow> nat \<Rightarrow> nat list \<Rightarrow> bytes option" where
  "writeString view off [] = Some view"
| "writeString view off (c # cs) =
     do { v \<leftarrow> setUint8 view off c; writeString v (off + 1) cs }"

text \<open>
  The stereo branch: a zero-filled \<^verbatim>\<open>Float32Array\<close> of \<open>left.length + right.length\<close>
  entries, filled pairwise. A read past the end of \<^verbatim>\<open>right\<close> is \<^verbatim>\<open>undefined\<close>, stored as
  NaN; a store past the end of a typed array is ignored, as \<open>list_update\<close> is.
\<close>

definition interleave :: "jsnum list \<Rightarrow> jsnum list \<Rightarrow> jsnum list" where
  "interleave left right =
     fold (\<lambda>i result.
             (result[i * 2 := left ! i])
               [i * 2 + 1 := (if i < length right then right ! i else NaN)])
       [0..<length left] (replicate (length left + length right) (Fin 0))"

fun writeSamples :: "bytes \<Rightarrow> nat \<Rightarrow> jsnum list \<Rightarrow> bytes option" where
  "writeSamples view offset [] = Some view"
| "writeSamples view offset (x # xs) =
     do { v \<leftarrow> setInt16 view offset (scaleSample x); writeSamples v (offset + 2) xs }"

definition wavSamples :: "AudioBuffer \<Rightarrow> jsnum list option" where
  "wavSamples buffer =
     (if numberOfChannels buffer = 2
      then do { left \<leftarrow> getChannelData buffer 0;
                right \<leftarrow> getChannelData buffer 1;
                Some (interleave left right) }
      else getChannelData buffer 0)"

definition audioBufferToWav :: "AudioBuffer \<Rightarrow> bytes option" where
  "audioBufferToWav buffer =
     do { result \<leftarrow> wavSamples buffer;
          let numChannels = numberOfChannels buffer;
          let format = 1;
          let bitDepth = 16;
          let bytesPerSample = bitDepth div 8;
          let blockAlign = numChannels * bytesPerSample;
          let bufferLength = 44 + length result * bytesPerSample;
          let view = replicate bufferLength 0;
          view \<leftarrow> writeString view 0 (lit ''RIFF'');
          view \<leftarrow> setUint32 view 4 (Fin (real (36 + length result * bytesPerSample)));
          view \<leftarrow> writeString view 8 (lit ''WAVE'');
          view \<leftarrow> writeString view 12 (lit ''fmt '');
          view \<leftarrow> setUint32 view 16 (Fin 16);
          view \<leftarrow> setUint16 view 20 (Fin (real format));
          view \<leftarrow> setUint16 view 22 (Fin (real numChannels));
          view \<leftarrow> setUint32 view 24 (Fin (sampleRate buffer));
          view \<leftarrow> setUint32 view 28 (Fin (sampleRate buffer * real blockAlign));
          view \<leftarrow> setUint16 view 32 (Fin (real blockAlign));
          view \<leftarrow> setUint16 view 34 (Fin (real bitDepth));
          view \<leftarrow> writeString view 36 (lit ''data'');
          view \<leftarrow> setUint32 view 40 (Fin (real (length result * bytesPerSample)));
          writeSamples view 44 result }"

text \<open>
  The same stores without the range checks, used to state what a successful run of the
  writer leaves in the buffer.
\<close>

primrec storeString :: "bytes \<Rightarrow> nat \<Rightarrow> nat list \<Rightarrow> bytes" where
  "storeString view off [] = view"
| "storeString view off (c # cs) = storeString (view[off := c mod 256]) (off + 1) cs"

primrec storeSamples :: "bytes \<Rightarrow> nat \<Rightarrow> jsnum list \<Rightarrow> bytes" where
  "storeSamples view offset [] = view"
| "storeSamples view offset (x # xs) =
     storeSamples (storeLE16 view offset (nat (ToInt16 (scaleSample x) mod 65536))) (offset + 2) xs"

text \<open>A valid buffer of three channels and one frame.\<close>

definition surround3 :: AudioBuffer where
  "surround3 = \<lparr>sampleRate = 44100, channelData = [[Fin 0], [Fin 0], [Fin 0]]\<rparr>"

section \<open>More number operations\<close>

text \<open>
  Subtraction, division and truthiness. A division by zero gives an infinity of the sign
  of the dividend (\<open>0 / 0\<close> is NaN); the source divides only by values it has tested, or by
  non-zero constants.
\<close>

fun js_neg :: "jsnum \<Rightarrow> jsnum" where
  "js_neg (Fin a) = Fin (- a)"
| "js_neg PInf = NInf"
| "js_neg NInf = PInf"
| "js_neg NaN = NaN"

definition js_sub :: "jsnum \<Rightarrow> jsnum \<Rightarrow> jsnum" where
  "js_sub a b = js_add a (js_neg b)"

fun js_div :: "jsnum \<Rightarrow> jsnum \<Rightarrow> jsnum" where
  "js_div NaN _ = NaN"
| "js_div _ NaN = NaN"
| "js_div (Fin a) (Fin b) =
     (if b = 0 then (if a = 0 then NaN else if 0 < a then PInf else NInf) else Fin (a / b))"
| "js_div (Fin a) PInf = Fin 0"
| "js_div (Fin a) NInf = Fin 0"
| "js_div PInf (Fin b) = (if 0 \<le> b then PInf else NInf)"
| "js_div NInf (Fin b) = (if 0 \<le> b then NInf else PInf)"
| "js_div PInf PInf = NaN"
| "js_div PInf NInf = NaN"
| "js_div NInf PInf = NaN"
| "js_div NInf NInf = NaN"

definition truthy :: "jsnum \<Rightarrow> bool" where
  "truthy x = (x \<noteq> NaN \<and> x \<noteq> Fin 0)"

section \<open>Format negotiation\<close>

text \<open>
  \<^verbatim>\<open>candidates.find(type => MediaRecorder.isTypeSupported(type)) || dflt\<close>: the first
  element the host supports, or the default when there is none (or when it is the empty
  string, which is falsy). The host's capability predicate is a parameter. An error is
  the message of the \<^verbatim>\<open>Error\<close> the promise is rejected with.
\<close>

datatype error = Error string














section \<open>Render and capture loop\<close>

text \<open>
  What a callback does to the outside world, in program order: calls of the progress
  callback, draws, pausing the source, stopping the recorder (\<open>RecorderStopIfActive\<close> is
  the stop guarded by \<^verbatim>\<open>recorder.state !== 'inactive'\<close>), asking for the next frame
  callback, and \<^verbatim>\<open>setTimeout(callback, ms)\<close> with the actions of its callback.
\<close>

datatype action =
    OnProgress jsnum
  | DrawImage
  | DrawSubtitle "nat list"
  | VideoPause
  | RecorderStop
  | RecorderStopIfActive
  | RequestFrame
  | SetTimeout nat "action list"

text \<open>The state of the video element a callback reads.\<close>

record video =
  currentTime :: jsnum
  duration :: jsnum
  paused :: bool
  ended :: bool

definition progressOf :: "jsnum \<Rightarrow> jsnum \<Rightarrow> jsnum" where
  "progressOf current whole = Math_min (js_mul (js_div current whole) (Fin 100)) (Fin 99)"

definition burnSubtitles_onended :: "action list" where
  "burnSubtitles_onended = [OnProgress (Fin 100), SetTimeout 1500 [RecorderStopIfActive]]"

definition burnSubtitles_renderFrame :: "Subtitle list \<Rightarrow> video \<Rightarrow> action list" where
  "burnSubtitles_renderFrame subtitles v =
     (if ended v then []
      else (if \<not> paused v \<and> \<not> ended v
            then [DrawImage]
                 @ (case activeSubtitle subtitles (currentTime v) of
                      Some s \<Rightarrow> [DrawSubtitle (text' s)]
                    | None \<Rightarrow> [])
                 @ (if truthy (duration v)
                    then [OnProgress (progressOf (currentTime v) (duration v))] else [])
            else [])
           @ [RequestFrame])"

definition trimVideo_renderFrame :: "jsnum \<Rightarrow> jsnum \<Rightarrow> video \<Rightarrow> action list" where
  "trimVideo_renderFrame startTime' endTime' v =
     (if paused v \<or> ended v then []
      else [DrawImage]
           @ (if js_ge (currentTime v) endTime'
              then [VideoPause, RecorderStop, OnProgress (Fin 100)]
              else (let duration' = js_sub endTime' startTime';
                        current = js_sub (currentTime v) startTime'
                    in [OnProgress (progressOf current duration'), RequestFrame])))"

definition convertVideo_onended :: "action list" where
  "convertVideo_onended = [RecorderStop, OnProgress (Fin 100)]"

definition convertVideo_renderFrame :: "bool \<Rightarrow> video \<Rightarrow> action list" where
  "convertVideo_renderFrame hasCanvas v =
     (if paused v \<or> ended v then []
      else (if hasCanvas then [DrawImage] else [])
           @ (if truthy (duration v)
              then [OnProgress (progressOf (currentTime v) (duration v))] else [])
           @ [RequestFrame])"

text \<open>
  The loop: the scheduler calls \<^verbatim>\<open>renderFrame\<close> once per frame, each time on the state
  the video element has then, for as long as the previous call asked for another frame.
\<close>

fun renderLoop :: "(video \<Rightarrow> action list) \<Rightarrow> video list \<Rightarrow> action list" where
  "renderLoop renderFrame [] = []"
| "renderLoop renderFrame (v # vs) =
     (let acts = renderFrame v
      in if RequestFrame \<in> set acts then acts @ renderLoop renderFrame vs else acts)"

fun progressValues :: "action list \<Rightarrow> jsnum list" where
  "progressValues [] = []"
| "progressValues (OnProgress p # acts) = p # progressValues acts"
| "progressValues (_ # acts) = progressValues acts"

text \<open>
  The delays, in milliseconds after the callback started, at which a list of actions
  stops the recorder: 0 for a stop in the callback itself, \<open>ms\<close> more for one inside a
  timer.
\<close>

fun stopDelays :: "action \<Rightarrow> nat list" where
  "stopDelays RecorderStop = [0]"
| "stopDelays RecorderStopIfActive = [0]"
| "stopDelays (SetTimeout ms acts) = map (\<lambda>d. ms + d) (concat (map stopDelays acts))"
| "stopDelays _ = []"

definition stopDelaysOf :: "action list \<Rightarrow> nat list" where
  "stopDelaysOf acts = concat (map stopDelays acts)"

text \<open>The progress value a frame of the trim loop reports, when it reports one.\<close>

definition trimProgress :: "jsnum \<Rightarrow> jsnum \<Rightarrow> video \<Rightarrow> jsnum" where
  "trimProgress s e v =
     (if js_ge (currentTime v) e then Fin 100
      else progressOf (js_sub (currentTime v) s) (js_sub e s))"

section \<open>Rounding to a double\<close>

text \<open>
  Where the outcome depends on the rounding of each arithmetic step (the times of the
  subtitle serialisers and the length of the offline rendering context) the operations
  round their exact result to a double, as IEEE 754 prescribes: to the nearest
  representable value, a tie to the one with an even significand, and to an infinity from
  \<open>2\<^sup>1\<^sup>0\<^sup>2\<^sup>4 - 2\<^sup>9\<^sup>7\<^sup>0\<close> on. \<open>binade x\<close> is the exponent \<open>e\<close> with \<open>2\<^sup>e \<le> \<bar>x\<bar> < 2\<^sup>e\<^sup>+\<^sup>1\<close>, found by a
  bounded search and kept within \<open>[-1022, 1024]\<close>; the doubles of that binade are the
  multiples of \<open>ulp x = 2\<^sup>e\<^sup>-\<^sup>5\<^sup>2\<close> (below \<open>2\<^sup>-\<^sup>1\<^sup>0\<^sup>2\<^sup>2\<close> these are the subnormal numbers).
\<close>

fun findExp :: "nat \<Rightarrow> int \<Rightarrow> real \<Rightarrow> int" where
  "findExp 0 e x = e"
| "findExp (Suc n) e x = (if 2 powi (e + 1) \<le> x then findExp n (e + 1) x else e)"

definition binade :: "real \<Rightarrow> int" where
  "binade x = findExp 2046 (- 1022) \<bar>x\<bar>"

definition ulp :: "real \<Rightarrow> real" where
  "ulp x = 2 powi (binade x - 52)"

definition roundEven :: "real \<Rightarrow> int" where
  "roundEven q =
     (let f = \<lfloor>q\<rfloor>; d = q - of_int f
      in if d < 1 / 2 then f else if 1 / 2 < d then f + 1 else if even f then f else f + 1)"

definition fl :: "real \<Rightarrow> jsnum" where
  "fl x =
     (let u = ulp x;
          y = of_int (roundEven (x / u)) * u
      in if 2 powi 1024 \<le> y then PInf else if y \<le> - (2 powi 1024) then NInf else Fin y)"

text \<open>A real number that is a double, and the rounded \<^verbatim>\<open>+\<close>, \<^verbatim>\<open>*\<close> and \<^verbatim>\<open>/\<close>.\<close>

definition isDouble :: "real \<Rightarrow> bool" where
  "isDouble x = (fl x = Fin x)"

definition js_round :: "jsnum \<Rightarrow> jsnum" where
  "js_round x = (case x of Fin r \<Rightarrow> fl r | _ \<Rightarrow> x)"

definition dbl_add :: "jsnum \<Rightarrow> jsnum \<Rightarrow> jsnum" where
  "dbl_add a b = js_round (js_add a b)"

definition dbl_mul :: "jsnum \<Rightarrow> jsnum \<Rightarrow> jsnum" where
  "dbl_mul a b = js_round (js_mul a b)"

definition dbl_div :: "jsnum \<Rightarrow> jsnum \<Rightarrow> jsnum" where
  "dbl_div a b = js_round (js_div a b)"

section \<open>Offline mixing\<close>

text \<open>
  A track of \<^verbatim>\<open>AudioJoinerTool\<close>: its duration and its decoded buffer (\<^verbatim>\<open>null\<close> is
  \<open>None\<close>); the id and the file play no part in the merge.
\<close>

record AudioTrack =
  duration' :: jsnum
  buffer' :: "AudioBuffer option"

text \<open>
  The host's \<^verbatim>\<open>new OfflineAudioContext(numberOfChannels, length, sampleRate)\<close>. Its
  \<^verbatim>\<open>length\<close> parameter is an \<^verbatim>\<open>unsigned long\<close>: Web IDL converts the number passed with
  \<^verbatim>\<open>ToUint32\<close>, which drops the fraction. A length of zero is a \<^verbatim>\<open>NotSupportedError\<close>
  (\<open>None\<close>). The rendered buffer has that many frames at that rate.
\<close>

record OfflineContext =
  ctxChannels :: nat
  ctxLength :: nat
  ctxSampleRate :: real

definition OfflineAudioContext :: "nat \<Rightarrow> jsnum \<Rightarrow> real \<Rightarrow> OfflineContext option" where
  "OfflineAudioContext channels len rate =
     (let frames = ToUint32 len
      in if frames = 0 then None
         else Some \<lparr>ctxChannels = channels, ctxLength = frames, ctxSampleRate = rate\<rparr>)"

text \<open>
  The \<^verbatim>\<open>forEach\<close> of \<^verbatim>\<open>handleMerge\<close>: a track without a buffer is skipped and does not
  advance \<^verbatim>\<open>currentTime\<close>; a track with a buffer is started at \<^verbatim>\<open>currentTime\<close>, which
  then advances by the track's duration. \<^verbatim>\<open>source.start(when)\<close> throws for a negative or
  non-finite \<^verbatim>\<open>when\<close>. The result lists the scheduled buffers with their start times.
\<close>

fun scheduleTracks :: "AudioTrack list \<Rightarrow> jsnum \<Rightarrow> (AudioBuffer \<times> real) list option" where
  "scheduleTracks [] currentTime' = Some []"
| "scheduleTracks (track # tracks) currentTime' =
     (case buffer' track of
        None \<Rightarrow> scheduleTracks tracks currentTime'
      | Some b \<Rightarrow>
          (case currentTime' of
             Fin t \<Rightarrow>
               (if t < 0 then None
                else do { rest \<leftarrow> scheduleTracks tracks (dbl_add currentTime' (duration' track));
                          Some ((b, t) # rest) })
           | _ \<Rightarrow> None))"

record MergePlan =
  offlineCtx :: OfflineContext
  scheduled :: "(AudioBuffer \<times> real) list"

definition handleMerge :: "AudioTrack list \<Rightarrow> error + MergePlan" where
  "handleMerge tracks =
     (if length tracks < 2 then Inl (Error ''Please add at least 2 audio files to join.'')
      else (let totalDuration = fold (\<lambda>track acc. dbl_add acc (duration' track)) tracks (Fin 0);
                sampleRate = 44100;
                numberOfChannels = 2
            in case OfflineAudioContext numberOfChannels
                      (dbl_mul (Fin sampleRate) totalDuration) sampleRate of
                 None \<Rightarrow> Inl (Error ''Failed to merge audio files. Browser memory might be full.'')
               | Some ctx \<Rightarrow>
                   (case scheduleTracks tracks (Fin 0) of
                      None \<Rightarrow> Inl (Error ''Failed to merge audio files. Browser memory might be full.'')
                    | Some starts \<Rightarrow> Inr \<lparr>offlineCtx = ctx, scheduled = starts\<rparr>)))"

definition renderedDuration :: "MergePlan \<Rightarrow> real" where
  "renderedDuration plan = real (ctxLength (offlineCtx plan)) / ctxSampleRate (offlineCtx plan)"

text \<open>A track of 48375 frames decoded at 48000 Hz: its duration is \<open>129 / 128\<close> s.\<close>

definition longTrack :: AudioTrack where
  "longTrack =
     \<lparr>duration' = Fin (129 / 128),
      buffer' = Some \<lparr>sampleRate = 48000, channelData = [replicate 48375 (Fin 0)]\<rparr>\<rparr>"

text \<open>
  The value of \<^verbatim>\<open>totalDuration\<close> for a list of tracks, and with it the value of
  \<^verbatim>\<open>currentTime\<close> after the tracks of a prefix: the durations added from the left, each sum
  rounded to a double.
\<close>

definition durationSum :: "AudioTrack list \<Rightarrow> jsnum" where
  "durationSum tracks = fold (\<lambda>track acc. dbl_add acc (duration' track)) tracks (Fin 0)"

text \<open>A track of a given duration with an (empty) decoded buffer.\<close>

definition shortTrack :: "real \<Rightarrow> AudioTrack" where
  "shortTrack d = \<lparr>duration' = Fin d, buffer' = Some \<lparr>sampleRate = 44100, channelData = [[]]\<rparr>\<rparr>"

section \<open>Strings and the conversion of a string to a number\<close>

text \<open>
  A JavaScript string is a list of UTF-16 code units (\<open>nat list\<close>; \<open>lit\<close> embeds an
  ASCII literal). \<open>isWhite\<close> is the set \<^verbatim>\<open>String.prototype.trim\<close> strips and \<^verbatim>\<open>\s\<close>
  matches: the white space and line terminator code points of ECMAScript.
\<close>

definition isDigit :: "nat \<Rightarrow> bool" where
  "isDigit c = (48 \<le> c \<and> c \<le> 57)"

definition isWhite :: "nat \<Rightarrow> bool" where
  "isWhite c =
     (c \<in> set [9, 10, 11, 12, 13, 32, 160, 5760, 8232, 8233, 8239, 8287, 12288, 65279]
      \<or> (8192 \<le> c \<and> c \<le> 8202))"

definition trim :: "nat list \<Rightarrow> nat list" where
  "trim s = rev (dropWhile isWhite (rev (dropWhile isWhite s)))"

text \<open>\<^verbatim>\<open>s.split(c)\<close> for a one-character separator: never empty, \<^verbatim>\<open>''.split(c)\<close> is \<^verbatim>\<open>['']\<close>.\<close>

fun splitOn :: "nat \<Rightarrow> nat list \<Rightarrow> nat list list" where
  "splitOn c [] = [[]]"
| "splitOn c (x # xs) =
     (if x = c then [] # splitOn c xs
      else (case splitOn c xs of [] \<Rightarrow> [[x]] | p # ps \<Rightarrow> (x # p) # ps))"

text \<open>\<^verbatim>\<open>parts.join(sep)\<close>.\<close>

fun join :: "nat list \<Rightarrow> nat list list \<Rightarrow> nat list" where
  "join sep [] = []"
| "join sep [x] = x"
| "join sep (x # y # ys) = x @ sep @ join sep (y # ys)"

text \<open>\<^verbatim>\<open>s.includes(sub)\<close>.\<close>

fun includes' :: "nat list \<Rightarrow> nat list \<Rightarrow> bool" where
  "includes' [] sub = (sub = [])"
| "includes' (x # xs) sub = (take (length sub) (x # xs) = sub \<or> includes' xs sub)"

text \<open>\<^verbatim>\<open>s.replace(a, b)\<close> with one-character strings: the first occurrence only.\<close>

fun replaceFirst :: "nat \<Rightarrow> nat \<Rightarrow> nat list \<Rightarrow> nat list" where
  "replaceFirst a b [] = []"
| "replaceFirst a b (x # xs) = (if x = a then b # xs else x # replaceFirst a b xs)"

text \<open>
  \<^verbatim>\<open>Number(str)\<close>, the StringToNumber of ECMAScript: white space is trimmed, the empty
  string is 0, then an optional sign with \<^verbatim>\<open>Infinity\<close> or a decimal literal (digits, an
  optional fraction, an optional exponent), or an unsigned hexadecimal, octal or binary
  literal; anything else is NaN. \<open>numericValue\<close> is the mathematical value of the literal
  and \<open>Number\<close> rounds it to the nearest double, a literal too large to an infinity.
\<close>

definition digitsValue :: "nat list \<Rightarrow> nat" where
  "digitsValue ds = foldl (\<lambda>acc c. acc * 10 + (c - 48)) 0 ds"

definition pow10 :: "int \<Rightarrow> real" where
  "pow10 e = (if 0 \<le> e then 10 ^ nat e else 1 / 10 ^ nat (- e))"

definition exponentPart :: "nat list \<Rightarrow> int option" where
  "exponentPart s =
     (case s of
        [] \<Rightarrow> Some 0
      | e # r \<Rightarrow>
          (if e = 101 \<or> e = 69
           then (let sgn = (if r \<noteq> [] \<and> hd r = 45 then - 1 else 1);
                     ds = (if r \<noteq> [] \<and> (hd r = 43 \<or> hd r = 45) then tl r else r)
                 in if ds \<noteq> [] \<and> list_all isDigit ds
                    then Some (sgn * int (digitsValue ds)) else None)
           else None))"

definition unsignedDecimal :: "nat list \<Rightarrow> jsnum" where
  "unsignedDecimal s =
     (if s = lit ''Infinity'' then PInf
      else (let ip = takeWhile isDigit s;
                r1 = dropWhile isDigit s;
                fp = (if r1 \<noteq> [] \<and> hd r1 = 46 then takeWhile isDigit (tl r1) else []);
                r2 = (if r1 \<noteq> [] \<and> hd r1 = 46 then dropWhile isDigit (tl r1) else r1)
            in if ip = [] \<and> fp = [] then NaN
               else (case exponentPart r2 of
                       None \<Rightarrow> NaN
                     | Some e \<Rightarrow>
                         Fin ((real (digitsValue ip) + real (digitsValue fp) / 10 ^ length fp)
                              * pow10 e))))"

definition radixDigit :: "nat \<Rightarrow> nat option" where
  "radixDigit c =
     (if 48 \<le> c \<and> c \<le> 57 then Some (c - 48)
      else if 97 \<le> c \<and> c \<le> 102 then Some (c - 87)
      else if 65 \<le> c \<and> c \<le> 70 then Some (c - 55)
      else None)"

fun radixDigits :: "nat \<Rightarrow> nat list \<Rightarrow> nat \<Rightarrow> jsnum" where
  "radixDigits r [] acc = Fin (real acc)"
| "radixDigits r (c # cs) acc =
     (case radixDigit c of
        Some d \<Rightarrow> (if d < r then radixDigits r cs (acc * r + d) else NaN)
      | None \<Rightarrow> NaN)"

definition radixLiteral :: "nat \<Rightarrow> nat list \<Rightarrow> jsnum" where
  "radixLiteral r ds = (if ds = [] then NaN else radixDigits r ds 0)"

definition numericValue :: "nat list \<Rightarrow> jsnum" where
  "numericValue str =
     (let s = trim str
      in case s of
           [] \<Rightarrow> Fin 0
         | c # r \<Rightarrow>
             (if c = 43 then unsignedDecimal r
              else if c = 45 then js_neg (unsignedDecimal r)
              else if c = 48 \<and> r \<noteq> [] \<and> (hd r = 120 \<or> hd r = 88) then radixLiteral 16 (tl r)
              else if c = 48 \<and> r \<noteq> [] \<and> (hd r = 111 \<or> hd r = 79) then radixLiteral 8 (tl r)
              else if c = 48 \<and> r \<noteq> [] \<and> (hd r = 98 \<or> hd r = 66) then radixLiteral 2 (tl r)
              else unsignedDecimal s))"

definition Number :: "nat list \<Rightarrow> jsnum" where
  "Number str = js_round (numericValue str)"

section \<open>Time strings\<close>

text \<open>
  \<^verbatim>\<open>timeToSeconds\<close>. \<^verbatim>\<open>undefined\<close> and \<^verbatim>\<open>null\<close> are \<open>None\<close>. \<open>timeParts\<close> is the array
  \<^verbatim>\<open>parts\<close> before \<^verbatim>\<open>map(Number)\<close> and \<open>millisPart\<close> the string \<^verbatim>\<open>milliseconds\<close>. Every
  product, sum and quotient of the result is rounded to a double.
\<close>

definition timeParts :: "nat list \<Rightarrow> nat list list" where
  "timeParts timeString =
     (let normalized = replaceFirst 46 44 timeString;
          timePart = (if 44 \<in> set normalized then hd (splitOn 44 normalized) else normalized)
      in splitOn 58 timePart)"

definition millisPart :: "nat list \<Rightarrow> nat list" where
  "millisPart timeString =
     (let normalized = replaceFirst 46 44 timeString
      in if 44 \<in> set normalized
         then (let split = splitOn 44 normalized
               in if 1 < length split \<and> split ! 1 \<noteq> [] then split ! 1 else lit ''0'')
         else lit ''0'')"

definition timeToSeconds :: "nat list option \<Rightarrow> jsnum" where
  "timeToSeconds timeString =
     (case timeString of
        None \<Rightarrow> Fin 0
      | Some str \<Rightarrow>
          (if str = [] then Fin 0
           else (let parts = map Number (timeParts str);
                     milliseconds = Number (millisPart str);
                     hours = (if length parts = 3 then parts ! 0 else Fin 0);
                     minutes = (if length parts = 3 then parts ! 1
                                else if length parts = 2 then parts ! 0 else Fin 0);
                     seconds = (if length parts = 3 then parts ! 2
                                else if length parts = 2 then parts ! 1
                                else if length parts = 1 then parts ! 0 else Fin 0);
                     result = dbl_add (dbl_add (dbl_add (dbl_mul hours (Fin 3600))
                                                        (dbl_mul minutes (Fin 60)))
                                               seconds)
                                (dbl_div (if truthy milliseconds then milliseconds else Fin 0)
                                         (Fin 1000))
                 in if isNaN result then Fin 0 else result)))"

section \<open>Number formatting\<close>

text \<open>
  \<^verbatim>\<open>Math.floor\<close>, \<^verbatim>\<open>Math.round\<close> (halves go up) and the remainder \<^verbatim>\<open>%\<close>, which takes
  the sign of the dividend. None of the three rounds: the floor and the nearest integer of
  a double are doubles, and so is the remainder of two doubles.
\<close>

fun Math_floor :: "jsnum \<Rightarrow> jsnum" where
  "Math_floor (Fin r) = Fin (of_int \<lfloor>r\<rfloor>)"
| "Math_floor x = x"

fun Math_round :: "jsnum \<Rightarrow> jsnum" where
  "Math_round (Fin r) = Fin (of_int \<lfloor>r + 1 / 2\<rfloor>)"
| "Math_round x = x"

fun js_rem :: "jsnum \<Rightarrow> jsnum \<Rightarrow> jsnum" where
  "js_rem NaN _ = NaN"
| "js_rem _ NaN = NaN"
| "js_rem PInf _ = NaN"
| "js_rem NInf _ = NaN"
| "js_rem (Fin a) (Fin b) = (if b = 0 then NaN else Fin (a - b * of_int (js_trunc (a / b))))"
| "js_rem (Fin a) _ = Fin a"

text \<open>
  The string of a number, as string concatenation forms it. The source applies it to
  results of \<^verbatim>\<open>Math.floor\<close> and \<^verbatim>\<open>Math.round\<close> and to an array index plus one: for an
  integer below \<open>10\<^sup>2\<^sup>1\<close> in absolute value it is the decimal numeral, with a minus sign
  when negative. A finite number is printed as its integer part.
\<close>

fun natToString :: "nat \<Rightarrow> nat list" where
  "natToString n = (if n < 10 then [48 + n] else natToString (n div 10) @ [48 + n mod 10])"

definition numToString :: "jsnum \<Rightarrow> nat list" where
  "numToString x =
     (case x of
        Fin r \<Rightarrow> (if \<lfloor>r\<rfloor> < 0 then 45 # natToString (nat (- \<lfloor>r\<rfloor>)) else natToString (nat \<lfloor>r\<rfloor>))
      | PInf \<Rightarrow> lit ''Infinity''
      | NInf \<Rightarrow> lit ''-Infinity''
      | NaN \<Rightarrow> lit ''NaN'')"

section \<open>Subtitle serialisation\<close>

text \<open>\<^verbatim>\<open>pad(num, size)\<close> is \<^verbatim>\<open>('000' + num).slice(size * -1)\<close>: the last \<open>size\<close> characters.\<close>

definition pad :: "jsnum \<Rightarrow> nat \<Rightarrow> nat list" where
  "pad num size' = (let s = lit ''000'' @ numToString num in drop (length s - size') s)"

definition secondsToTime :: "jsnum \<Rightarrow> nat list \<Rightarrow> nat list" where
  "secondsToTime seconds separator =
     (let h = Math_floor (dbl_div seconds (Fin 3600));
          m = Math_floor (dbl_div (js_rem seconds (Fin 3600)) (Fin 60));
          s = Math_floor (js_rem seconds (Fin 60));
          ms = Math_round (dbl_mul (js_rem seconds (Fin 1)) (Fin 1000))
      in pad h 2 @ lit '':'' @ pad m 2 @ lit '':'' @ pad s 2 @ separator @ pad ms 3)"

definition srtBlock :: "nat \<Rightarrow> Subtitle \<Rightarrow> nat list" where
  "srtBlock index sub =
     natToString (index + 1) @ [10]
       @ secondsToTime (startTime sub) (lit '','') @ lit '' --> ''
       @ secondsToTime (endTime sub) (lit '','') @ [10]
       @ text' sub"

definition generateSRT :: "Subtitle list \<Rightarrow> nat list" where
  "generateSRT subtitles =
     join [10, 10] (map (\<lambda>(index, sub). srtBlock index sub) (enumerate 0 subtitles))"

section \<open>Regular expressions\<close>

text \<open>
  The two patterns of \<^verbatim>\<open>parseSRT\<close> are built from character classes, sequence, the greedy
  star, the greedy option and capture groups. A match state is the rest of the input with
  the captures so far; \<open>rmatch\<close> lists the states after a match in the order a backtracking
  matcher tries them (greedy first), so the head of the list is the match ECMAScript
  returns. An iteration of a star must consume input, as in ECMAScript; the input's
  length bounds the number of iterations.
\<close>

datatype regex =
    Eps
  | Chr "nat \<Rightarrow> bool"
  | Seq regex regex
  | Star regex
  | Opt regex
  | Grp nat regex

type_synonym mstate = "nat list \<times> (nat \<Rightarrow> nat list)"

fun starMatch :: "(mstate \<Rightarrow> mstate list) \<Rightarrow> nat \<Rightarrow> mstate \<Rightarrow> mstate list" where
  "starMatch f 0 st = [st]"
| "starMatch f (Suc n) st =
     concat (map (starMatch f n) (filter (\<lambda>st'. length (fst st') < length (fst st)) (f st)))
       @ [st]"

primrec rmatch :: "regex \<Rightarrow> mstate \<Rightarrow> mstate list" where
  "rmatch Eps st = [st]"
| "rmatch (Chr p) st =
     (case fst st of [] \<Rightarrow> [] | x # xs \<Rightarrow> if p x then [(xs, snd st)] else [])"
| "rmatch (Seq a b) st = concat (map (rmatch b) (rmatch a st))"
| "rmatch (Star a) st = starMatch (rmatch a) (length (fst st)) st"
| "rmatch (Opt a) st = rmatch a st @ [st]"
| "rmatch (Grp i a) st =
     map (\<lambda>st'. (fst st',
                 (snd st')(i := take (length (fst st) - length (fst st')) (fst st))))
       (rmatch a st)"

definition seqs :: "regex list \<Rightarrow> regex" where
  "seqs rs = foldr Seq rs Eps"

definition noCaptures :: "nat \<Rightarrow> nat list" where
  "noCaptures i = []"

text \<open>\<^verbatim>\<open>str.match(re)\<close> for a pattern without the \<^verbatim>\<open>g\<close> flag: the leftmost match, as its
  captures; \<^verbatim>\<open>null\<close> is \<open>None\<close>.\<close>

fun regexExec :: "regex \<Rightarrow> nat list \<Rightarrow> (nat \<Rightarrow> nat list) option" where
  "regexExec re [] =
     (case rmatch re ([], noCaptures) of [] \<Rightarrow> None | st # _ \<Rightarrow> Some (snd st))"
| "regexExec re (x # xs) =
     (case rmatch re (x # xs, noCaptures) of
        [] \<Rightarrow> regexExec re xs
      | st # _ \<Rightarrow> Some (snd st))"

text \<open>
  \<^verbatim>\<open>str.split(re)\<close> for a pattern without captures that matches no empty string: the input
  is scanned from the left; where the pattern matches, the piece collected so far is
  closed and the scan goes on after the match (\<open>skip\<close> counts the characters of the match
  still to pass); the last piece ends the list.
\<close>

fun splitLoop :: "regex \<Rightarrow> nat list \<Rightarrow> nat \<Rightarrow> nat list \<Rightarrow> nat list list" where
  "splitLoop re [] skip cur = [rev cur]"
| "splitLoop re (x # xs) (Suc k) cur = splitLoop re xs k cur"
| "splitLoop re (x # xs) 0 cur =
     (case rmatch re (x # xs, noCaptures) of
        [] \<Rightarrow> splitLoop re xs 0 (x # cur)
      | st # _ \<Rightarrow>
          (if length (fst st) < length (x # xs)
           then rev cur # splitLoop re xs (length xs - length (fst st)) []
           else splitLoop re xs 0 (x # cur)))"

definition regexSplit :: "regex \<Rightarrow> nat list \<Rightarrow> nat list list" where
  "regexSplit re s = splitLoop re s 0 []"

section \<open>Subtitle parsing\<close>

text \<open>\<^verbatim>\<open>/\n\s*\n/\<close>\<close>

definition blockSeparator :: regex where
  "blockSeparator = seqs [Chr (\<lambda>c. c = 10), Star (Chr isWhite), Chr (\<lambda>c. c = 10)]"

text \<open>\<^verbatim>\<open>\d{1,2}:\d{2}:\d{2}(?:[,.]\d{1,3})?\<close>\<close>

definition timestampRegex :: regex where
  "timestampRegex =
     seqs [Chr isDigit, Opt (Chr isDigit), Chr (\<lambda>c. c = 58),
           Chr isDigit, Chr isDigit, Chr (\<lambda>c. c = 58),
           Chr isDigit, Chr isDigit,
           Opt (seqs [Chr (\<lambda>c. c = 44 \<or> c = 46),
                      Chr isDigit, Opt (seqs [Chr isDigit, Opt (Chr isDigit)])])]"

text \<open>\<^verbatim>\<open>/(<timestamp>)\s*-->\s*(<timestamp>)/\<close>\<close>

definition timeLineRegex :: regex where
  "timeLineRegex =
     seqs [Grp 1 timestampRegex, Star (Chr isWhite),
           Chr (\<lambda>c. c = 45), Chr (\<lambda>c. c = 45), Chr (\<lambda>c. c = 62),
           Star (Chr isWhite), Grp 2 timestampRegex]"

text \<open>\<^verbatim>\<open>replace(/\r\n/g, '\n')\<close> and \<^verbatim>\<open>replace(/\r/g, '\n')\<close>.\<close>

fun crlfToLf :: "nat list \<Rightarrow> nat list" where
  "crlfToLf (x # y # xs) =
     (if x = 13 \<and> y = 10 then 10 # crlfToLf xs else x # crlfToLf (y # xs))"
| "crlfToLf xs = xs"

definition crToLf :: "nat list \<Rightarrow> nat list" where
  "crToLf s = map (\<lambda>c. if c = 13 then 10 else c) s"

fun findIndex :: "('a \<Rightarrow> bool) \<Rightarrow> 'a list \<Rightarrow> nat option" where
  "findIndex p [] = None"
| "findIndex p (x # xs) = (if p x then Some 0 else map_option Suc (findIndex p xs))"

text \<open>The body of \<^verbatim>\<open>blocks.forEach\<close>: \<^verbatim>\<open>subtitles\<close> is the array built so far.\<close>

definition parseBlock :: "nat list \<Rightarrow> Subtitle list \<Rightarrow> Subtitle list" where
  "parseBlock block subtitles =
     (let lines = splitOn 10 (trim block)
      in case findIndex (\<lambda>line. includes' line (lit ''-->'')) lines of
           None \<Rightarrow> subtitles
         | Some timeLineIndex \<Rightarrow>
             (case regexExec timeLineRegex (lines ! timeLineIndex) of
                None \<Rightarrow> subtitles
              | Some timeMatch \<Rightarrow>
                  (let startTime' = timeToSeconds (Some (timeMatch 1));
                       endTime' = timeToSeconds (Some (timeMatch 2));
                       text'' = trim (join [10] (drop (timeLineIndex + 1) lines))
                   in if text'' \<noteq> []
                      then subtitles @ [\<lparr>id' = length subtitles + 1, startTime = startTime',
                                         endTime = endTime', text' = text''\<rparr>]
                      else subtitles)))"

definition parseSRT :: "nat list \<Rightarrow> Subtitle list" where
  "parseSRT srtContent =
     (let normalized = crToLf (crlfToLf srtContent);
          blocks = regexSplit blockSeparator normalized
      in fold parseBlock blocks [])"

section \<open>Notions used to state the round trip\<close>

text \<open>
  A blank line inside a text: a line feed that is followed, after white space only, by
  another line feed. This is where \<^verbatim>\<open>/\n\s*\n/\<close> matches.
\<close>

fun hasBlankLine :: "nat list \<Rightarrow> bool" where
  "hasBlankLine [] = False"
| "hasBlankLine (x # xs) = ((x = 10 \<and> 10 \<in> set (takeWhile isWhite xs)) \<or> hasBlankLine xs)"

text \<open>A time stamp of the shape \<^verbatim>\<open>DD:DD:DD,DDD\<close>.\<close>

definition isStamp :: "nat list \<Rightarrow> bool" where
  "isStamp ts =
     (length ts = 12
      \<and> list_all (\<lambda>i. isDigit (ts ! i)) [0, 1, 3, 4, 6, 7, 9, 10, 11]
      \<and> ts ! 2 = 58 \<and> ts ! 5 = 58 \<and> ts ! 8 = 44)"

text \<open>
  A text that survives the parsing up to the final \<^verbatim>\<open>trim\<close>: not empty, ending in a
  character that is not white space, without carriage return, and without a blank line
  even when it follows a line feed.
\<close>

definition okText :: "nat list \<Rightarrow> bool" where
  "okText t = (t \<noteq> [] \<and> \<not> isWhite (last t) \<and> 13 \<notin> set t \<and> \<not> hasBlankLine (10 # t))"

text \<open>A text that the final \<^verbatim>\<open>trim\<close> leaves alone as well: it does not start with white
  space either.\<close>

definition goodText :: "nat list \<Rightarrow> bool" where
  "goodText t =
     (t \<noteq> [] \<and> \<not> isWhite (hd t) \<and> \<not> isWhite (last t) \<and> 13 \<notin> set t \<and> \<not> hasBlankLine t)"

text \<open>
  The milliseconds \<^verbatim>\<open>secondsToTime\<close> prints for a time (the fraction times 1000, rounded
  to a double and then to the nearest integer), and the time the printed stamp denotes for
  \<^verbatim>\<open>timeToSeconds\<close> (the whole seconds plus the milliseconds over 1000, each step rounded
  to a double). A time is printed faithfully when it is a double, non-negative, below one
  hundred hours, and its milliseconds do not come out as 1000.
\<close>

definition srtMillis :: "real \<Rightarrow> jsnum" where
  "srtMillis t = Math_round (dbl_mul (Fin (t - of_int \<lfloor>t\<rfloor>)) (Fin 1000))"

definition srtTime :: "real \<Rightarrow> jsnum" where
  "srtTime t = dbl_add (Fin (of_int \<lfloor>t\<rfloor>)) (dbl_div (srtMillis t) (Fin 1000))"

definition goodTime :: "jsnum \<Rightarrow> bool" where
  "goodTime x =
     (case x of
        Fin t \<Rightarrow> isDouble t \<and> 0 \<le> t \<and> t < 360000 \<and> js_lt (srtMillis t) (Fin 1000)
      | _ \<Rightarrow> False)"

definition srtRound :: "jsnum \<Rightarrow> jsnum" where
  "srtRound x = (case x of Fin t \<Rightarrow> srtTime t | _ \<Rightarrow> x)"

text \<open>
  Two times that differ by at most half a millisecond and the rounding errors of the
  three double operations in between (less than \<open>2\<^sup>-\<^sup>3\<^sup>4\<close> s).
\<close>

definition closeTo :: "jsnum \<Rightarrow> jsnum \<Rightarrow> bool" where
  "closeTo x y =
     (case (x, y) of (Fin a, Fin b) \<Rightarrow> \<bar>b - a\<bar> \<le> 1 / 2000 + 1 / 2 ^ 34 | _ \<Rightarrow> False)"

definition goodCue :: "Subtitle \<Rightarrow> bool" where
  "goodCue sub = (goodTime (startTime sub) \<and> goodTime (endTime sub) \<and> goodText (text' sub))"

text \<open>The cue the round trip gives back for the cue at \<open>index\<close>.\<close>

definition reparsed :: "nat \<Rightarrow> Subtitle \<Rightarrow> Subtitle" where
  "reparsed index sub =
     \<lparr>id' = index + 1, startTime = srtRound (startTime sub),
      endTime = srtRound (endTime sub), text' = text' sub\<rparr>"

definition reparsedRaw :: "nat \<Rightarrow> Subtitle \<Rightarrow> Subtitle" where
  "reparsedRaw index sub =
     \<lparr>id' = index + 1,
      startTime = timeToSeconds (Some (secondsToTime (startTime sub) (lit '','')) ),
      endTime = timeToSeconds (Some (secondsToTime (endTime sub) (lit '',''))),
      text' = trim (text' sub)\<rparr>"

text \<open>The stamps \<^verbatim>\<open>generateSRT\<close> prints for a cue.\<close>

abbreviation stamp1 :: "Subtitle \<Rightarrow> nat list" where
  "stamp1 c \<equiv> secondsToTime (startTime c) (lit '','')"

abbreviation stamp2 :: "Subtitle \<Rightarrow> nat list" where
  "stamp2 c \<equiv> secondsToTime (endTime c) (lit '','')"

section \<open>Rounding to a double: proofs\<close>

lemma findExp_ge: "e \<le> findExp n e x"
proof (induction n arbitrary: e)
  case (Suc n)
  show ?case using Suc[of "e + 1"] by simp
qed simp

lemma findExp_le: "findExp n e x \<le> e + int n"
proof (induction n arbitrary: e)
  case (Suc n)
  show ?case using Suc[of "e + 1"] by simp
qed simp

lemma findExp_lower: "findExp n e x \<noteq> e \<Longrightarrow> 2 powi (findExp n e x) \<le> x"
proof (induction n arbitrary: e)
  case (Suc n)
  show ?case
  proof (cases "2 powi (e + 1) \<le> x")
    case True
    then have r: "findExp (Suc n) e x = findExp n (e + 1) x" by simp
    show ?thesis
    proof (cases "findExp n (e + 1) x = e + 1")
      case True
      then show ?thesis using r \<open>2 powi (e + 1) \<le> x\<close> by simp
    next
      case False
      then show ?thesis using Suc.IH[of "e + 1"] r by simp
    qed
  next
    case False
    then show ?thesis using Suc.prems by simp
  qed
qed simp

lemma findExp_upper: "findExp n e x \<noteq> e + int n \<Longrightarrow> x < 2 powi (findExp n e x + 1)"
proof (induction n arbitrary: e)
  case (Suc n)
  show ?case
  proof (cases "2 powi (e + 1) \<le> x")
    case True
    then have r: "findExp (Suc n) e x = findExp n (e + 1) x" by simp
    have "findExp n (e + 1) x \<noteq> e + 1 + int n" using Suc.prems r by simp
    then show ?thesis using Suc.IH[of "e + 1"] r by simp
  next
    case False
    then show ?thesis by simp
  qed
qed simp

lemma binade_ge: "- 1022 \<le> binade x"
  unfolding binade_def by (rule findExp_ge)

lemma binade_le: "binade x \<le> 1024"
  unfolding binade_def using findExp_le[of 2046 "- 1022" "\<bar>x\<bar>"] by simp

lemma binade_lower: "binade x \<noteq> - 1022 \<Longrightarrow> 2 powi binade x \<le> \<bar>x\<bar>"
  unfolding binade_def by (rule findExp_lower)

lemma binade_upper:
  assumes "\<bar>x\<bar> < 2 powi 1024"
  shows "\<bar>x\<bar> < 2 powi (binade x + 1)"
proof (cases "binade x = 1024")
  case True
  then have "2 powi binade x \<le> \<bar>x\<bar>" by (intro binade_lower) simp
  then show ?thesis using assms True by simp
next
  case False
  then have "findExp 2046 (- 1022) \<bar>x\<bar> \<noteq> - 1022 + int 2046" by (simp add: binade_def)
  then show ?thesis unfolding binade_def by (rule findExp_upper)
qed

lemma binade_eq:
  assumes "2 powi e \<le> \<bar>x\<bar>" "\<bar>x\<bar> < 2 powi (e + 1)" "- 1022 \<le> e" "e \<le> 1023"
  shows "binade x = e"
proof -
  have "(2::real) powi (e + 1) \<le> 2 powi 1024" using assms(4) by (intro power_int_increasing) simp_all
  then have lt: "\<bar>x\<bar> < 2 powi 1024" using assms(2) by linarith
  have up: "\<bar>x\<bar> < 2 powi (binade x + 1)" by (rule binade_upper[OF lt])
  have "(2::real) powi e < 2 powi (binade x + 1)" using assms(1) up by linarith
  then have a: "e < binade x + 1"
    by (metis power_int_increasing not_le less_le_not_le one_le_numeral)
  have b: "binade x \<le> e"
  proof (cases "binade x = - 1022")
    case True
    then show ?thesis using assms(3) by simp
  next
    case False
    then have "2 powi binade x \<le> \<bar>x\<bar>" by (rule binade_lower)
    then have "(2::real) powi binade x < 2 powi (e + 1)" using assms(2) by linarith
    then have "binade x < e + 1"
      by (metis power_int_increasing not_le less_le_not_le one_le_numeral)
    then show ?thesis by simp
  qed
  show ?thesis using a b by simp
qed

lemma roundEven_err: "\<bar>of_int (roundEven q) - q\<bar> \<le> 1 / 2"
proof -
  have "of_int \<lfloor>q\<rfloor> \<le> q" "q < of_int \<lfloor>q\<rfloor> + 1" by linarith+
  then show ?thesis unfolding roundEven_def Let_def by (auto simp: abs_le_iff)
qed

lemma roundEven_of_int [simp]: "roundEven (of_int j) = j"
  by (simp add: roundEven_def)

lemma roundEven_le: "q \<le> of_int j \<Longrightarrow> roundEven q \<le> j"
  using roundEven_err[of q] by linarith

lemma roundEven_ge: "of_int j \<le> q \<Longrightarrow> j \<le> roundEven q"
  using roundEven_err[of q] by linarith

lemma roundEven_less: "q < of_int j - 1 / 2 \<Longrightarrow> roundEven q < j"
  using roundEven_err[of q] by linarith


lemma powi_ratio_int: "j \<le> k \<Longrightarrow> (2::real) powi k / 2 powi j = of_int (2 ^ nat (k - j))"
proof -
  assume "j \<le> k"
  have "(2::real) powi k / 2 powi j = 2 powi (k - j)" by (simp add: power_int_diff)
  also have "\<dots> = 2 ^ nat (k - j)" using \<open>j \<le> k\<close> by (simp add: power_int_def)
  finally show ?thesis by simp
qed

lemma powi_less_D: "(2::real) powi a < 2 powi b \<Longrightarrow> a < b"
  by (metis power_int_increasing not_le less_le_not_le one_le_numeral)

lemma powi_le_D: "(2::real) powi a \<le> 2 powi b \<Longrightarrow> a \<le> b"
  by (metis power_int_strict_increasing not_le less_le_not_le one_less_numeral_iff semiring_norm(76))

lemma ulp_pos [simp]: "0 < ulp x"
  by (simp add: ulp_def zero_less_power_int)

lemma ulp_nonneg [simp]: "0 \<le> ulp x"
  by (simp add: ulp_def zero_le_power_int)

lemma ulp_neq0 [simp]: "ulp x \<noteq> 0"
  using ulp_pos[of x] by linarith

lemma fl_Fin_iff:
  "fl x = Fin y \<longleftrightarrow> y = of_int (roundEven (x / ulp x)) * ulp x \<and> \<bar>y\<bar> < 2 powi 1024"
  unfolding fl_def Let_def by (auto simp: abs_less_iff)

lemma fl_exact:
  assumes "x = of_int m * 2 powi k" "\<bar>m\<bar> < 2 ^ 53" "- 1074 \<le> k" "\<bar>x\<bar> < 2 powi 1024"
  shows "fl x = Fin x"
proof -
  have ek: "binade x - 52 \<le> k"
  proof (cases "binade x = - 1022")
    case True
    then show ?thesis using assms(3) by simp
  next
    case False
    then have "2 powi binade x \<le> \<bar>x\<bar>" by (rule binade_lower)
    also have "\<bar>x\<bar> = \<bar>of_int m\<bar> * 2 powi k" by (simp add: assms(1) abs_mult)
    also have "\<dots> < 2 ^ 53 * 2 powi k"
    proof (rule mult_strict_right_mono)
      have "real_of_int \<bar>m\<bar> < real_of_int (2 ^ 53)" using assms(2) by (simp only: of_int_less_iff)
      then show "\<bar>real_of_int m\<bar> < 2 ^ 53" by simp
      show "(0::real) < 2 powi k" by (simp add: zero_less_power_int)
    qed
    also have "\<dots> = 2 powi (53 + k)" by (simp add: power_int_add)
    finally have "binade x < 53 + k" by (rule powi_less_D)
    then show ?thesis by simp
  qed
  define j where "j = m * 2 ^ nat (k - (binade x - 52))"
  have "x / ulp x = of_int m * (2 powi k / 2 powi (binade x - 52))"
    by (simp add: assms(1) ulp_def)
  also have "\<dots> = of_int j" unfolding powi_ratio_int[OF ek] j_def by simp
  finally have q: "x / ulp x = of_int j" .
  then have "x = of_int j * ulp x" using ulp_pos[of x] by (simp add: field_simps)
  then show ?thesis unfolding fl_Fin_iff q using assms(4) by simp
qed

lemma fl_0 [simp]: "fl 0 = Fin 0"
  using fl_exact[of 0 0 0] by (simp add: zero_less_power_int)

lemma fl_of_int:
  assumes "\<bar>j\<bar> < 2 ^ 53"
  shows "fl (of_int j) = Fin (of_int j)"
proof -
  have "\<bar>real_of_int j\<bar> < 2 ^ 53" using assms by (metis of_int_abs of_int_less_numeral_power_cancel_iff)
  also have "\<dots> \<le> 2 powi 1024" by simp
  finally show ?thesis using fl_exact[of "of_int j" j 0] assms by simp
qed

lemma fl_err:
  assumes "\<bar>x\<bar> < 2 powi (j + 1)" "- 1022 \<le> j" "j \<le> 1022"
  shows "\<exists>y. fl x = Fin y \<and> \<bar>y - x\<bar> \<le> 2 powi (j - 53) \<and> \<bar>y\<bar> \<le> 2 powi (j + 1)"
proof -
  have ej: "binade x \<le> j"
  proof (cases "binade x = - 1022")
    case True
    then show ?thesis using assms(2) by simp
  next
    case False
    then have "2 powi binade x \<le> \<bar>x\<bar>" by (rule binade_lower)
    then have "(2::real) powi binade x < 2 powi (j + 1)" using assms(1) by linarith
    then have "binade x < j + 1" by (rule powi_less_D)
    then show ?thesis by simp
  qed
  define n where "n = roundEven (x / ulp x)"
  define y where "y = of_int n * ulp x"
  have "\<bar>of_int n - x / ulp x\<bar> \<le> 1 / 2" unfolding n_def by (rule roundEven_err)
  then have "\<bar>of_int n - x / ulp x\<bar> * ulp x \<le> (1 / 2) * ulp x"
    by (rule mult_right_mono) simp
  moreover have "\<bar>of_int n - x / ulp x\<bar> * ulp x = \<bar>y - x\<bar>"
  proof -
    have "\<bar>of_int n - x / ulp x\<bar> * ulp x = \<bar>(of_int n - x / ulp x) * ulp x\<bar>"
      by (simp add: abs_mult)
    also have "(of_int n - x / ulp x) * ulp x = y - x"
      using ulp_pos[of x] by (simp add: y_def field_simps)
    finally show ?thesis .
  qed
  moreover have "(1 / 2) * ulp x = 2 powi (binade x - 53)"
  proof -
    have "(2::real) powi (binade x - 52) = 2 powi ((binade x - 53) + 1)" by simp
    also have "\<dots> = 2 powi (binade x - 53) * 2" by (rule power_int_add_1) simp
    finally show ?thesis by (simp add: ulp_def)
  qed
  moreover have "(2::real) powi (binade x - 53) \<le> 2 powi (j - 53)"
    using ej by (intro power_int_increasing) simp_all
  ultimately have err: "\<bar>y - x\<bar> \<le> 2 powi (j - 53)" by linarith
  define N :: int where "N = 2 ^ nat (j + 1 - (binade x - 52))"
  have Nu: "of_int N * ulp x = 2 powi (j + 1)"
  proof -
    have "(2::real) powi (j + 1) / 2 powi (binade x - 52) = of_int N"
      unfolding N_def using ej by (intro powi_ratio_int) simp
    then show ?thesis using ulp_pos[of x] by (simp add: ulp_def field_simps)
  qed
  have "\<bar>x\<bar> / ulp x \<le> 2 powi (j + 1) / ulp x"
    using assms(1) by (intro divide_right_mono) simp_all
  also have "\<dots> = of_int N" using Nu ulp_pos[of x] by (simp add: field_simps)
  finally have A: "\<bar>x\<bar> / ulp x \<le> of_int N" .
  have d1: "x / ulp x \<le> \<bar>x\<bar> / ulp x" by (intro divide_right_mono) simp_all
  have d2: "- (\<bar>x\<bar> / ulp x) \<le> x / ulp x"
    using divide_right_mono[of "- \<bar>x\<bar>" x "ulp x"] by simp
  have "x / ulp x \<le> of_int N" "of_int (- N) \<le> x / ulp x" using A d1 d2 by simp_all
  then have "n \<le> N" "- N \<le> n" unfolding n_def by (auto intro: roundEven_le roundEven_ge)
  then have "\<bar>real_of_int n\<bar> \<le> of_int N" by linarith
  then have "\<bar>real_of_int n\<bar> * ulp x \<le> of_int N * ulp x" by (rule mult_right_mono) simp
  then have ub: "\<bar>y\<bar> \<le> 2 powi (j + 1)" unfolding Nu by (simp add: y_def abs_mult)
  have "(2::real) powi (j + 1) < 2 powi 1024"
    using assms(3) by (intro power_int_strict_increasing) simp_all
  then have "\<bar>y\<bar> < 2 powi 1024" using ub by linarith
  then have "fl x = Fin y" unfolding fl_Fin_iff by (simp add: y_def n_def)
  then show ?thesis using err ub by blast
qed

lemma fl_err_rel:
  assumes "2 powi (- 1022) \<le> \<bar>x\<bar>" "\<bar>x\<bar> < 2 powi 1023"
  shows "\<exists>y. fl x = Fin y \<and> \<bar>y - x\<bar> \<le> \<bar>x\<bar> / 2 ^ 53"
proof -
  have lt: "\<bar>x\<bar> < 2 powi 1024"
  proof -
    have "(2::real) powi 1023 \<le> 2 powi 1024" by (intro power_int_increasing) simp_all
    then show ?thesis using assms(2) by linarith
  qed
  have lo: "2 powi binade x \<le> \<bar>x\<bar>"
  proof (cases "binade x = - 1022")
    case True
    then show ?thesis using assms(1) by simp
  next
    case False
    then show ?thesis by (rule binade_lower)
  qed
  have up: "\<bar>x\<bar> < 2 powi (binade x + 1)" by (rule binade_upper[OF lt])
  have "(2::real) powi binade x < 2 powi 1023" using lo assms(2) by linarith
  then have "binade x < 1023" by (rule powi_less_D)
  then obtain y where y: "fl x = Fin y" "\<bar>y - x\<bar> \<le> 2 powi (binade x - 53)"
    using fl_err[OF up binade_ge] by auto
  have "(2::real) powi (binade x - 53) = 2 powi binade x / 2 powi 53"
    by (rule power_int_diff) simp
  also have "\<dots> \<le> \<bar>x\<bar> / 2 powi 53" using lo by (intro divide_right_mono) simp_all
  finally show ?thesis using y by auto
qed

lemma binade_le_52:
  assumes "\<bar>x\<bar> < 2 ^ 53"
  shows "binade x \<le> 52"
proof (cases "binade x = - 1022")
  case True
  then show ?thesis by simp
next
  case False
  then have "2 powi binade x \<le> \<bar>x\<bar>" by (rule binade_lower)
  then have "(2::real) powi binade x < 2 powi 53" using assms by simp
  then have "binade x < 53" by (rule powi_less_D)
  then show ?thesis by simp
qed

lemma inv_ulp_int:
  assumes "binade x \<le> 52"
  shows "1 / ulp x = of_int (2 ^ nat (52 - binade x))"
proof -
  have "(2::real) powi 0 / 2 powi (binade x - 52) = of_int (2 ^ nat (0 - (binade x - 52)))"
    using assms by (intro powi_ratio_int) simp
  then show ?thesis by (simp add: ulp_def)
qed

lemma fl_int_bounds:
  assumes "\<bar>x\<bar> < 2 ^ 53"
  shows "\<exists>y. fl x = Fin y \<and> (\<forall>j. of_int j \<le> x \<longrightarrow> of_int j \<le> y)
            \<and> (\<forall>j. x \<le> of_int j \<longrightarrow> y \<le> of_int j)"
proof -
  have "\<bar>x\<bar> < 2 powi (52 + 1)" using assms by simp
  then obtain y where y: "fl x = Fin y" using fl_err[of x 52] by auto
  then have yd: "y = of_int (roundEven (x / ulp x)) * ulp x" by (simp add: fl_Fin_iff)
  define P :: int where "P = 2 ^ nat (52 - binade x)"
  have P: "1 / ulp x = of_int P" unfolding P_def by (rule inv_ulp_int[OF binade_le_52[OF assms]])
  have Pu: "of_int P * ulp x = 1" using P by (simp add: field_simps)
  have q: "x / ulp x = x * of_int P" using P by (simp add: field_simps)
  have lo: "of_int j \<le> y" if "of_int j \<le> x" for j
  proof -
    have "real_of_int (j * P) \<le> x / ulp x"
      unfolding q using that by (simp add: P_def mult_right_mono)
    then have "j * P \<le> roundEven (x / ulp x)" by (rule roundEven_ge)
    then have "real_of_int (j * P) \<le> of_int (roundEven (x / ulp x))" by (simp only: of_int_le_iff)
    then have "real_of_int (j * P) * ulp x \<le> y" unfolding yd by (rule mult_right_mono) simp
    moreover have "real_of_int (j * P) * ulp x = of_int j" by (simp add: mult.assoc Pu)
    ultimately show ?thesis by (simp only:)
  qed
  have hi: "y \<le> of_int j" if "x \<le> of_int j" for j
  proof -
    have "x / ulp x \<le> real_of_int (j * P)"
      unfolding q using that by (simp add: P_def mult_right_mono)
    then have "roundEven (x / ulp x) \<le> j * P" by (rule roundEven_le)
    then have "real_of_int (roundEven (x / ulp x)) \<le> of_int (j * P)" by (simp only: of_int_le_iff)
    then have "y \<le> real_of_int (j * P) * ulp x" unfolding yd by (rule mult_right_mono) simp
    moreover have "real_of_int (j * P) * ulp x = of_int j" by (simp add: mult.assoc Pu)
    ultimately show ?thesis by (simp only:)
  qed
  show ?thesis using y lo hi by blast
qed

lemma fl_below_int:
  assumes "0 \<le> x" "1 \<le> K" "K \<le> 2 ^ 53" "x \<le> of_int K * (1 - 1 / 2 ^ 53)"
  shows "\<exists>y. fl x = Fin y \<and> y < of_int K"
proof -
  have K53: "real_of_int K \<le> 2 ^ 53" using assms(3) by (metis of_int_le_numeral_power_cancel_iff)
  have K1: "1 \<le> real_of_int K" using assms(2) by simp
  have "of_int K * (1 - 1 / 2 ^ 53) < real_of_int K" using K1 by (simp add: field_simps)
  then have xK: "x < of_int K" using assms(4) by linarith
  then have ax: "\<bar>x\<bar> < 2 ^ 53" using assms(1) K53 by linarith
  obtain y where y: "fl x = Fin y" using fl_int_bounds[OF ax] by blast
  then have yd: "y = of_int (roundEven (x / ulp x)) * ulp x" by (simp add: fl_Fin_iff)
  have eK: "2 powi binade x < real_of_int K"
  proof (cases "binade x = - 1022")
    case True
    have "(2::real) powi (- 1022) < 2 powi 0" by (intro power_int_strict_increasing) simp_all
    then show ?thesis using True K1 by simp
  next
    case False
    then have "2 powi binade x \<le> \<bar>x\<bar>" by (rule binade_lower)
    then show ?thesis using xK assms(1) by linarith
  qed
  define P :: int where "P = 2 ^ nat (52 - binade x)"
  have P: "1 / ulp x = of_int P" unfolding P_def by (rule inv_ulp_int[OF binade_le_52[OF ax]])
  have Pu: "of_int P * ulp x = 1" using P by (simp add: field_simps)
  have half: "ulp x / 2 < of_int K / 2 ^ 53"
  proof -
    have "ulp x = 2 powi binade x / 2 powi 52" unfolding ulp_def by (rule power_int_diff) simp
    then have "ulp x / 2 = 2 powi binade x / 2 ^ 53" by simp
    also have "\<dots> < of_int K / 2 ^ 53" using eK by (intro divide_strict_right_mono) simp_all
    finally show ?thesis .
  qed
  have "x < of_int K - ulp x / 2" using assms(4) half by (simp add: field_simps)
  then have "x / ulp x < (of_int K - ulp x / 2) / ulp x"
    by (intro divide_strict_right_mono) simp_all
  also have "(of_int K - ulp x / 2) / ulp x = of_int K * (1 / ulp x) - 1 / 2"
    by (simp add: field_simps)
  also have "\<dots> = of_int (K * P) - 1 / 2" unfolding P by simp
  finally have "roundEven (x / ulp x) < K * P" by (rule roundEven_less)
  then have "roundEven (x / ulp x) \<le> K * P - 1" by simp
  then have "real_of_int (roundEven (x / ulp x)) \<le> of_int (K * P - 1)" by (simp only: of_int_le_iff)
  then have "y \<le> real_of_int (K * P - 1) * ulp x" unfolding yd by (rule mult_right_mono) simp
  also have "\<dots> = of_int K * (of_int P * ulp x) - ulp x" by (simp add: algebra_simps)
  also have "\<dots> = of_int K - ulp x" unfolding Pu by simp
  also have "\<dots> < of_int K" by simp
  finally show ?thesis using y by blast
qed

lemma double_repr:
  assumes "fl x = Fin x"
  shows "\<exists>m. x = of_int m * ulp x \<and> \<bar>m\<bar> < 2 ^ 53"
proof -
  define n where "n = roundEven (x / ulp x)"
  have xn: "x = of_int n * ulp x" and lt: "\<bar>x\<bar> < 2 powi 1024"
    using assms by (simp_all add: fl_Fin_iff n_def)
  have "\<bar>x\<bar> < 2 powi (binade x + 1)" by (rule binade_upper[OF lt])
  then have "\<bar>x\<bar> / ulp x < 2 powi (binade x + 1) / ulp x"
    by (intro divide_strict_right_mono) simp_all
  also have "\<dots> = of_int (2 ^ nat (binade x + 1 - (binade x - 52)))"
    unfolding ulp_def by (intro powi_ratio_int) simp
  also have "\<dots> = 2 ^ 53" by simp
  finally have "\<bar>x\<bar> / ulp x < 2 ^ 53" .
  moreover have "\<bar>x\<bar> / ulp x = \<bar>real_of_int n\<bar>"
  proof -
    have "\<bar>x\<bar> = \<bar>real_of_int n\<bar> * ulp x" by (subst xn) (simp add: abs_mult)
    then show ?thesis by simp
  qed
  ultimately have "real_of_int \<bar>n\<bar> < 2 ^ 53" by simp
  then have "\<bar>n\<bar> < 2 ^ 53" by (metis of_int_less_numeral_power_cancel_iff)
  then show ?thesis using xn by blast
qed

lemma fl_idem:
  assumes "fl x = Fin y"
  shows "fl y = Fin y"
proof -
  define n where "n = roundEven (x / ulp x)"
  have yn: "y = of_int n * ulp x" and lt: "\<bar>y\<bar> < 2 powi 1024"
    using assms unfolding fl_Fin_iff n_def by blast+
  have e: "- 1074 \<le> binade x - 52" using binade_ge[of x] by simp
  have d1: "x / ulp x \<le> \<bar>x\<bar> / ulp x" by (intro divide_right_mono) simp_all
  have d2: "- (\<bar>x\<bar> / ulp x) \<le> x / ulp x"
    using divide_right_mono[of "- \<bar>x\<bar>" x "ulp x"] by simp
  have xs: "\<bar>x\<bar> < 2 powi 1024"
  proof (rule ccontr)
    assume "\<not> \<bar>x\<bar> < 2 powi 1024"
    then have big: "2 powi 1024 \<le> \<bar>x\<bar>" by simp
    define N :: int where "N = 2 ^ nat (1024 - (binade x - 52))"
    have "(2::real) powi 1024 / 2 powi (binade x - 52) = of_int N"
      unfolding N_def using binade_le[of x] by (intro powi_ratio_int) simp
    then have Nd: "2 powi 1024 / ulp x = of_int N" by (simp add: ulp_def)
    then have Nu: "of_int N * ulp x = 2 powi 1024" by (simp add: field_simps)
    have "2 powi 1024 / ulp x \<le> \<bar>x\<bar> / ulp x" using big by (intro divide_right_mono) simp_all
    then have A: "of_int N \<le> \<bar>x\<bar> / ulp x" unfolding Nd .
    have "N \<le> \<bar>n\<bar>"
    proof (cases "0 \<le> x")
      case True
      then have "of_int N \<le> x / ulp x" using A by simp
      then have "N \<le> n" unfolding n_def by (rule roundEven_ge)
      then show ?thesis by simp
    next
      case False
      then have "x / ulp x \<le> of_int (- N)" using A by simp
      then have "n \<le> - N" unfolding n_def by (rule roundEven_le)
      then show ?thesis by simp
    qed
    then have "real_of_int N \<le> \<bar>real_of_int n\<bar>" by linarith
    then have "real_of_int N * ulp x \<le> \<bar>real_of_int n\<bar> * ulp x" by (rule mult_right_mono) simp
    then have "2 powi 1024 \<le> \<bar>y\<bar>" unfolding Nu by (simp add: yn abs_mult)
    then show False using lt by simp
  qed
  have "\<bar>x\<bar> < 2 powi (binade x + 1)" by (rule binade_upper[OF xs])
  then have "\<bar>x\<bar> / ulp x < 2 powi (binade x + 1) / ulp x"
    by (intro divide_strict_right_mono) simp_all
  also have "\<dots> = of_int (2 ^ nat (binade x + 1 - (binade x - 52)))"
    unfolding ulp_def by (intro powi_ratio_int) simp
  also have "\<dots> = of_int (2 ^ 53)" by simp
  finally have A: "\<bar>x\<bar> / ulp x < of_int (2 ^ 53)" .
  have "x / ulp x \<le> of_int (2 ^ 53)" "of_int (- (2 ^ 53)) \<le> x / ulp x" using A d1 d2 by simp_all
  then have nb: "n \<le> 2 ^ 53" "- (2 ^ 53) \<le> n" unfolding n_def by (auto intro: roundEven_le roundEven_ge)
  consider "\<bar>n\<bar> < 2 ^ 53" | "n = 2 ^ 53" | "n = - (2 ^ 53)" using nb by linarith
  then show ?thesis
  proof cases
    case 1
    show ?thesis by (rule fl_exact[OF yn[unfolded ulp_def] 1 e lt])
  next
    case 2
    have "y = 2 ^ 53 * 2 powi (binade x - 52)" using yn 2 by (simp add: ulp_def)
    also have "\<dots> = 2 powi 53 * 2 powi (binade x - 52)" by simp
    also have "\<dots> = 2 powi (binade x + 1)" by (subst power_int_add[symmetric]) (simp_all add: add.commute)
    finally have "y = of_int 1 * 2 powi (binade x + 1)" by simp
    then show ?thesis using lt binade_ge[of x] by (intro fl_exact[of y 1 "binade x + 1"]) simp_all
  next
    case 3
    have "y = - (2 ^ 53 * 2 powi (binade x - 52))" using yn 3 by (simp add: ulp_def)
    also have "2 ^ 53 * 2 powi (binade x - 52) = 2 powi 53 * (2::real) powi (binade x - 52)" by simp
    also have "\<dots> = 2 powi (binade x + 1)" by (subst power_int_add[symmetric]) (simp_all add: add.commute)
    finally have "y = of_int (- 1) * 2 powi (binade x + 1)" by simp
    then show ?thesis using lt binade_ge[of x] by (intro fl_exact[of y "- 1" "binade x + 1"]) simp_all
  qed
qed

lemma gap_below_int:
  assumes "a = real N * 2 powi k" "N < 2 ^ 53" "a < of_int b" "b \<le> 2 ^ 53"
  shows "a \<le> of_int b * (1 - 1 / 2 ^ 53)"
proof -
  have b53: "real_of_int b \<le> 2 ^ 53" using assms(4) by (metis of_int_le_numeral_power_cancel_iff)
  have N53: "real N \<le> 2 ^ 53 - 1"
  proof -
    have "N \<le> 2 ^ 53 - 1" using assms(2) by simp
    then have "real N \<le> real (2 ^ 53 - 1)" by (simp only: of_nat_le_iff)
    then show ?thesis by simp
  qed
  show ?thesis
  proof (cases "0 \<le> k")
    case True
    then have "a = real_of_int (int N * 2 ^ nat k)" by (simp add: assms(1) power_int_def)
    then have "int N * 2 ^ nat k < b" using assms(3) by (simp only: of_int_less_iff)
    then have "int N * 2 ^ nat k \<le> b - 1" by simp
    then have "real_of_int (int N * 2 ^ nat k) \<le> real_of_int (b - 1)" by (simp only: of_int_le_iff)
    then have "a \<le> of_int b - 1" using \<open>a = real_of_int (int N * 2 ^ nat k)\<close> by simp
    moreover have "of_int b / 2 ^ 53 \<le> (1::real)" using b53 by simp
    ultimately show ?thesis by (simp add: algebra_simps)
  next
    case False
    define p where "p = nat (- k)"
    have pk: "(2::real) powi k = 1 / 2 ^ p" using False by (simp add: power_int_def p_def field_simps)
    have a: "a = real N / 2 ^ p" by (simp add: assms(1) pk)
    have "real N < of_int b * 2 ^ p" using assms(3) unfolding a by (simp add: field_simps)
    then have "real_of_int (int N) < real_of_int (b * 2 ^ p)" by simp
    then have "int N < b * 2 ^ p" by (simp only: of_int_less_iff)
    then have "int N \<le> b * 2 ^ p - 1" by simp
    then have "real_of_int (int N) \<le> real_of_int (b * 2 ^ p - 1)" by (simp only: of_int_le_iff)
    then have Nb: "real N \<le> of_int b * 2 ^ p - 1" by simp
    show ?thesis
    proof (cases "real_of_int b * 2 ^ p \<le> 2 ^ 53")
      case True
      have "a \<le> (of_int b * 2 ^ p - 1) / 2 ^ p" unfolding a using Nb by (intro divide_right_mono) simp_all
      also have "\<dots> = of_int b - 1 / 2 ^ p" by (simp add: field_simps)
      finally have 1: "a \<le> of_int b - 1 / 2 ^ p" .
      have "real_of_int b / 2 ^ 53 \<le> 1 / 2 ^ p" using True by (simp add: field_simps)
      then show ?thesis using 1 by (simp add: algebra_simps)
    next
      case False
      then have big: "2 ^ 53 \<le> real_of_int b * 2 ^ p" by simp
      have "a \<le> (2 ^ 53 - 1) / 2 ^ p" unfolding a using N53 by (intro divide_right_mono) simp_all
      also have "\<dots> = (1 / 2 ^ p) * (2 ^ 53 - 1)" by simp
      also have "\<dots> \<le> (real_of_int b / 2 ^ 53) * (2 ^ 53 - 1)"
      proof (rule mult_right_mono)
        show "1 / 2 ^ p \<le> real_of_int b / 2 ^ 53" using big by (simp add: field_simps)
      qed simp
      also have "\<dots> = of_int b * (1 - 1 / 2 ^ 53)" by (simp add: field_simps)
      finally show ?thesis .
    qed
  qed
qed

lemma fl_div_floor:
  assumes "a = real N * 2 powi k" "N < 2 ^ 53" "0 < c" "int c * (\<lfloor>a / real c\<rfloor> + 1) \<le> 2 ^ 53"
  shows "\<exists>y. fl (a / real c) = Fin y \<and> \<lfloor>y\<rfloor> = \<lfloor>a / real c\<rfloor>"
proof -
  define K where "K = \<lfloor>a / real c\<rfloor> + 1"
  have a0: "0 \<le> a" by (simp add: assms(1) zero_le_power_int)
  then have q0: "0 \<le> a / real c" by simp
  then have K1: "1 \<le> K" unfolding K_def by simp
  have c1: "1 \<le> int c" using assms(3) by simp
  have cK: "int c * K \<le> 2 ^ 53" using assms(4) by (simp only: K_def)
  have "1 * K \<le> int c * K" using c1 K1 by (intro mult_right_mono) simp_all
  then have K53: "K \<le> 2 ^ 53" using cK by linarith
  have qK: "a / real c < of_int K" unfolding K_def by linarith
  then have "a < of_int K * real c" using assms(3) by (simp add: field_simps)
  then have ab: "a < of_int (int c * K)" by (simp add: mult.commute)
  have "a \<le> of_int (int c * K) * (1 - 1 / 2 ^ 53)"
    by (rule gap_below_int[OF assms(1,2) ab cK])
  then have "a / real c \<le> (of_int (int c * K) * (1 - 1 / 2 ^ 53)) / real c"
    by (intro divide_right_mono) simp_all
  also have "\<dots> = of_int K * (1 - 1 / 2 ^ 53)" using assms(3) by simp
  finally have le: "a / real c \<le> of_int K * (1 - 1 / 2 ^ 53)" .
  obtain y where y: "fl (a / real c) = Fin y" "y < of_int K"
    using fl_below_int[OF q0 K1 K53 le] by blast
  have "real_of_int K \<le> 2 ^ 53" using K53 by (metis of_int_le_numeral_power_cancel_iff)
  then have "\<bar>a / real c\<bar> < 2 ^ 53" using qK q0 by linarith
  then obtain y' where y': "fl (a / real c) = Fin y'" "\<forall>j. of_int j \<le> a / real c \<longrightarrow> of_int j \<le> y'"
    using fl_int_bounds by blast
  have "of_int (K - 1) \<le> a / real c" unfolding K_def by simp
  then have "of_int (K - 1) \<le> y'" using y'(2) by blast
  moreover have "y' = y" using y(1) y'(1) by simp
  ultimately have "of_int (K - 1) \<le> y" by (simp only:)
  then have "\<lfloor>y\<rfloor> = K - 1" using y(2) by (intro floor_unique) simp_all
  then show ?thesis using y(1) K_def by simp
qed

lemma fl_not_NaN [simp]: "fl x \<noteq> NaN"
  by (simp add: fl_def Let_def)

lemma fl_nonneg:
  assumes "0 \<le> x"
  shows "fl x \<noteq> NInf" and "fl x = Fin y \<Longrightarrow> 0 \<le> y"
proof -
  have "of_int 0 \<le> x / ulp x" using assms by simp
  then have "0 \<le> roundEven (x / ulp x)" by (rule roundEven_ge)
  then have n: "0 \<le> real_of_int (roundEven (x / ulp x)) * ulp x" by simp
  have "(0::real) < 2 powi 1024" by (simp add: zero_less_power_int)
  then have "\<not> real_of_int (roundEven (x / ulp x)) * ulp x \<le> - (2 powi 1024)"
    using n by linarith
  then show "fl x \<noteq> NInf" unfolding fl_def Let_def by (simp only: if_False jsnum.distinct split: if_split) simp
  show "fl x = Fin y \<Longrightarrow> 0 \<le> y" using n unfolding fl_Fin_iff by blast
qed

lemma fl_Fin_small:
  assumes "fl x = Fin y"
  shows "\<bar>x\<bar> < 2 powi 1024"
proof (rule ccontr)
  define n where "n = roundEven (x / ulp x)"
  have yn: "y = of_int n * ulp x" and lt: "\<bar>y\<bar> < 2 powi 1024"
    using assms unfolding fl_Fin_iff n_def by blast+
  assume "\<not> \<bar>x\<bar> < 2 powi 1024"
  then have big: "2 powi 1024 \<le> \<bar>x\<bar>" by simp
  define N :: int where "N = 2 ^ nat (1024 - (binade x - 52))"
  have "(2::real) powi 1024 / 2 powi (binade x - 52) = of_int N"
    unfolding N_def using binade_le[of x] by (intro powi_ratio_int) simp
  then have Nd: "2 powi 1024 / ulp x = of_int N" by (simp add: ulp_def)
  then have Nu: "of_int N * ulp x = 2 powi 1024" by (simp add: field_simps)
  have "2 powi 1024 / ulp x \<le> \<bar>x\<bar> / ulp x" using big by (intro divide_right_mono) simp_all
  then have A: "of_int N \<le> \<bar>x\<bar> / ulp x" unfolding Nd .
  have "N \<le> \<bar>n\<bar>"
  proof (cases "0 \<le> x")
    case True
    then have "of_int N \<le> x / ulp x" using A by simp
    then have "N \<le> n" unfolding n_def by (rule roundEven_ge)
    then show ?thesis by simp
  next
    case False
    then have "x / ulp x \<le> of_int (- N)" using A by simp
    then have "n \<le> - N" unfolding n_def by (rule roundEven_le)
    then show ?thesis by simp
  qed
  then have "real_of_int N \<le> \<bar>real_of_int n\<bar>" by linarith
  then have "real_of_int N * ulp x \<le> \<bar>real_of_int n\<bar> * ulp x" by (rule mult_right_mono) simp
  then have "2 powi 1024 \<le> \<bar>y\<bar>" unfolding Nu by (simp add: yn abs_mult)
  then show False using lt by simp
qed

lemma fl_ge_binade:
  assumes "fl x = Fin y" "binade x \<noteq> - 1022"
  shows "2 powi binade x \<le> \<bar>y\<bar>"
proof -
  define n where "n = roundEven (x / ulp x)"
  have yn: "y = of_int n * ulp x" using assms(1) unfolding fl_Fin_iff n_def by blast
  have lo: "2 powi binade x \<le> \<bar>x\<bar>" by (rule binade_lower[OF assms(2)])
  define N :: int where "N = 2 ^ nat (binade x - (binade x - 52))"
  have "(2::real) powi binade x / 2 powi (binade x - 52) = of_int N"
    unfolding N_def by (intro powi_ratio_int) simp
  then have Nd: "2 powi binade x / ulp x = of_int N" by (simp add: ulp_def)
  then have Nu: "of_int N * ulp x = 2 powi binade x" by (simp add: field_simps)
  have "2 powi binade x / ulp x \<le> \<bar>x\<bar> / ulp x" using lo by (intro divide_right_mono) simp_all
  then have A: "of_int N \<le> \<bar>x\<bar> / ulp x" unfolding Nd .
  have "N \<le> \<bar>n\<bar>"
  proof (cases "0 \<le> x")
    case True
    then have "of_int N \<le> x / ulp x" using A by simp
    then have "N \<le> n" unfolding n_def by (rule roundEven_ge)
    then show ?thesis by simp
  next
    case False
    then have "x / ulp x \<le> of_int (- N)" using A by simp
    then have "n \<le> - N" unfolding n_def by (rule roundEven_le)
    then show ?thesis by simp
  qed
  then have "real_of_int N \<le> \<bar>real_of_int n\<bar>" by linarith
  then have "real_of_int N * ulp x \<le> \<bar>real_of_int n\<bar> * ulp x" by (rule mult_right_mono) simp
  then show ?thesis unfolding Nu by (simp add: yn abs_mult)
qed

lemma fl_result_rel:
  assumes "fl x = Fin y" "2 powi (- 1021) < y" "y < 2 ^ 53"
  shows "0 < x" and "\<bar>y - x\<bar> \<le> x / 2 ^ 53"
proof -
  have y0: "0 < y"
  proof -
    have "(0::real) < 2 powi (- 1021)" by (rule zero_less_power_int) simp
    then show ?thesis using assms(2) by linarith
  qed
  have yn: "y = of_int (roundEven (x / ulp x)) * ulp x" using assms(1) unfolding fl_Fin_iff by blast
  show pos: "0 < x"
  proof (rule ccontr)
    assume "\<not> 0 < x"
    then have "x / ulp x \<le> of_int 0" by (simp add: divide_nonpos_pos)
    then have "roundEven (x / ulp x) \<le> 0" by (rule roundEven_le)
    then have "real_of_int (roundEven (x / ulp x)) * ulp x \<le> 0"
      by (simp add: mult_nonpos_nonneg)
    then show False using yn y0 by linarith
  qed
  have xs: "\<bar>x\<bar> < 2 powi 1024" by (rule fl_Fin_small[OF assms(1)])
  have lo: "2 powi (- 1022) \<le> \<bar>x\<bar>"
  proof (rule ccontr)
    assume "\<not> 2 powi (- 1022) \<le> \<bar>x\<bar>"
    then have "\<bar>x\<bar> < 2 powi (- 1022)" by simp
    moreover have "(2::real) powi (- 1022) \<le> 2 powi (- 1022 + 1)"
      by (intro power_int_increasing) simp_all
    ultimately have "\<bar>x\<bar> < 2 powi (- 1022 + 1)" by linarith
    then obtain y' where y': "fl x = Fin y'" "\<bar>y'\<bar> \<le> 2 powi (- 1022 + 1)"
      using fl_err[of x "- 1022"] by auto
    have "y' = y" using y'(1) assms(1) by simp
    then have "y \<le> 2 powi (- 1022 + 1)" using y'(2) by linarith
    moreover have "(- 1022 + 1 :: int) = - 1021" by simp
    ultimately have "y \<le> 2 powi (- 1021)" by (simp only:)
    then show False using assms(2) by linarith
  qed
  have hi: "\<bar>x\<bar> < 2 powi 1023"
  proof (rule ccontr)
    assume "\<not> \<bar>x\<bar> < 2 powi 1023"
    then have "2 powi 1023 \<le> \<bar>x\<bar>" by simp
    then have "(2::real) powi 1023 < 2 powi (binade x + 1)" using binade_upper[OF xs] by linarith
    then have b: "1023 < binade x + 1" by (rule powi_less_D)
    then have "binade x \<noteq> - 1022" by simp
    then have "2 powi binade x \<le> \<bar>y\<bar>" by (rule fl_ge_binade[OF assms(1)])
    moreover have "(2::real) powi 53 \<le> 2 powi binade x" using b by (intro power_int_increasing) simp_all
    ultimately have "2 ^ 53 \<le> \<bar>y\<bar>" by simp
    then show False using y0 assms(3) by simp
  qed
  obtain y' where "fl x = Fin y'" "\<bar>y' - x\<bar> \<le> \<bar>x\<bar> / 2 ^ 53"
    using fl_err_rel[OF lo hi] by blast
  then show "\<bar>y - x\<bar> \<le> x / 2 ^ 53" using assms(1) pos by simp
qed

lemma js_round_simps [simp]:
  "js_round (Fin r) = fl r" "js_round PInf = PInf" "js_round NInf = NInf" "js_round NaN = NaN"
  by (simp_all add: js_round_def)

lemma dbl_add_Fin: "dbl_add (Fin a) (Fin b) = fl (a + b)"
  by (simp add: dbl_add_def)

lemma dbl_mul_Fin: "dbl_mul (Fin a) (Fin b) = fl (a * b)"
  by (simp add: dbl_mul_def)

lemma tiny_less: "(2::real) powi (- 1021) < 1 / 131072"
proof -
  have "(2::real) powi (- 1021) < 2 powi (- 17)" by (intro power_int_strict_increasing) simp_all
  also have "\<dots> = 1 / 131072" by (simp add: power_int_minus_divide)
  finally show ?thesis .
qed

lemma dbl_NaN [simp]:
  "dbl_add x NaN = NaN" "dbl_add NaN x = NaN" "dbl_mul NaN x = NaN"
  by (cases x; simp add: dbl_add_def dbl_mul_def)+

lemma dbl_div_Fin: "b \<noteq> 0 \<Longrightarrow> dbl_div (Fin a) (Fin b) = fl (a / b)"
  by (simp add: dbl_div_def)

lemma js_round_idem: "js_round (js_round x) = js_round x"
proof (cases x)
  case (Fin r)
  then show ?thesis using fl_idem[of r] fl_not_NaN[of r] by (cases "fl r") simp_all
qed simp_all

lemma dbl_add_zero: "dbl_add (Fin 0) (js_round x) = js_round x"
proof (cases "js_round x")
  case (Fin y)
  then have "js_round (Fin y) = Fin y" using js_round_idem[of x] by simp
  then show ?thesis using Fin by (simp add: dbl_add_def)
qed (simp_all add: dbl_add_def)

lemma fl_of_nat: "n < 2 ^ 53 \<Longrightarrow> fl (real n) = Fin (real n)"
  using fl_of_int[of "int n"] by simp

lemma fl_dyadic:
  assumes "\<bar>m\<bar> < 2 ^ 53" "p \<le> 1074"
  shows "fl (real_of_int m / 2 ^ p) = Fin (real_of_int m / 2 ^ p)"
proof -
  have pk: "(2::real) powi (- int p) = 1 / 2 ^ p" by (simp add: power_int_minus_divide)
  have "\<bar>real_of_int m / 2 ^ p\<bar> = \<bar>real_of_int m\<bar> / 2 ^ p" by simp
  also have "\<dots> \<le> \<bar>real_of_int m\<bar> / 1" by (intro divide_left_mono) simp_all
  also have "\<dots> < 2 ^ 53" using assms(1) by (metis div_by_1 of_int_abs of_int_less_numeral_power_cancel_iff)
  also have "\<dots> = 2 powi 53" by simp
  also have "\<dots> \<le> 2 powi 1024" by (intro power_int_increasing) simp_all
  finally have b: "\<bar>real_of_int m / 2 ^ p\<bar> < 2 powi 1024" .
  show ?thesis
  proof (rule fl_exact[of _ m "- int p"])
    show "real_of_int m / 2 ^ p = real_of_int m * 2 powi (- int p)" by (simp add: pk)
    show "\<bar>m\<bar> < 2 ^ 53" by (rule assms(1))
    show "- 1074 \<le> - int p" using assms(2) by simp
    show "\<bar>real_of_int m / 2 ^ p\<bar> < 2 powi 1024" by (rule b)
  qed
qed

lemma fl_small_ints: "fl 132300 = Fin 132300" "fl 3 = Fin 3" "fl 1 = Fin 1" "fl 2 = Fin 2"
  using fl_of_int[of 132300] fl_of_int[of 3] fl_of_int[of 1] fl_of_int[of 2] by simp_all

lemma fl_millis: "fl 250 = Fin 250" "fl 500 = Fin 500" "fl (1 / 4) = Fin (1 / 4)" "fl (1 / 2) = Fin (1 / 2)"
proof -
  show "fl 250 = Fin 250" "fl 500 = Fin 500" using fl_of_int[of 250] fl_of_int[of 500] by simp_all
  have p: "(2::real) powi (- 2) = 1 / 4" "(2::real) powi (- 1) = 1 / 2"
    by (simp_all add: power_int_minus_divide)
  have big: "(2::real) powi 0 \<le> 2 powi 1024" by (intro power_int_increasing) simp_all
  have b: "\<bar>x\<bar> < 1 \<Longrightarrow> \<bar>x\<bar> < 2 powi 1024" for x :: real using big by simp
  show "fl (1 / 4) = Fin (1 / 4)" by (rule fl_exact[of _ 1 "- 2"]) (simp_all add: p b)
  show "fl (1 / 2) = Fin (1 / 2)" by (rule fl_exact[of _ 1 "- 1"]) (simp_all add: p b)
qed

section \<open>Sample conversion: proofs\<close>











section \<open>Peak envelope: proofs\<close>

lemma peakVisit_in: "idx < length ch \<Longrightarrow> peakVisit ch idx mm = (min (ch ! idx) (fst mm), max (ch ! idx) (snd mm))"
  by (auto simp: peakVisit_def Let_def min_def max_def)

lemma peakVisit_out: "\<not> idx < length ch \<Longrightarrow> peakVisit ch idx mm = mm"
  by (simp add: peakVisit_def)

lemma fold_visit_window:
  "fold (\<lambda>j mm. peakVisit ch (base + j) mm) [0..<k] init =
   fold (\<lambda>v mm. (min v (fst mm), max v (snd mm))) (take k (drop base ch)) init"
proof (induction k)
  case 0
  then show ?case by simp
next
  case (Suc k)
  show ?case
  proof (cases "base + k < length ch")
    case True
    then have "take (Suc k) (drop base ch) = take k (drop base ch) @ [ch ! (base + k)]"
      by (simp add: take_Suc_conv_app_nth)
    then show ?thesis using Suc True by (simp add: peakVisit_in)
  next
    case False
    then have "take (Suc k) (drop base ch) = take k (drop base ch)" by simp
    then show ?thesis using Suc False by (simp add: peakVisit_out)
  qed
qed

lemma fold_minmax:
  "fold (\<lambda>v mm. (min v (fst mm), max v (snd mm))) xs (lo, hi) =
     (Min (insert lo (set xs)), Max (insert hi (set xs)))"
proof (induction xs arbitrary: lo hi)
  case Nil
  then show ?case by simp
next
  case (Cons x xs)
  have "Min (insert (min x lo) (set xs)) = Min (insert lo (insert x (set xs)))"
    by (cases "set xs = {}") (simp_all add: min.commute min.left_commute min.assoc)
  moreover have "Max (insert (max x hi) (set xs)) = Max (insert hi (insert x (set xs)))"
    by (cases "set xs = {}") (simp_all add: max.commute max.left_commute max.assoc)
  ultimately show ?case using Cons by simp
qed

lemma peakBucket_window:
  "peakBucket ch step i =
     (Min (insert 1 (set (take step (drop (i * step) ch)))),
      Max (insert (- 1) (set (take step (drop (i * step) ch)))))"
  unfolding peakBucket_def by (simp add: fold_visit_window fold_minmax)

lemma length_peakStore [simp]: "length (peakStore ch step i ps) = length ps"
  by (simp add: peakStore_def Let_def)

lemma length_fold_peakStore [simp]: "length (fold (peakStore ch step) is ps) = length ps"
  by (induction "is" arbitrary: ps) simp_all

lemma peakStore_nth_same:
  "i * 2 + 1 < length ps \<Longrightarrow>
     peakStore ch step i ps ! (i * 2) = fst (peakBucket ch step i)
   \<and> peakStore ch step i ps ! (i * 2 + 1) = snd (peakBucket ch step i)"
  by (simp add: peakStore_def Let_def)

lemma peakStore_nth_other:
  "j \<noteq> i * 2 \<Longrightarrow> j \<noteq> i * 2 + 1 \<Longrightarrow> peakStore ch step i ps ! j = ps ! j"
  by (simp add: peakStore_def Let_def)

lemma nth_fold_peakStore:
  assumes "i < n" "2 * n \<le> length ps"
  shows "fold (peakStore ch step) [0..<n] ps ! (i * 2) = fst (peakBucket ch step i)
       \<and> fold (peakStore ch step) [0..<n] ps ! (i * 2 + 1) = snd (peakBucket ch step i)"
  using assms
proof (induction n)
  case 0
  then show ?case by simp
next
  case (Suc n)
  let ?qs = "fold (peakStore ch step) [0..<n] ps"
  have len: "length ?qs = length ps" by simp
  show ?case
  proof (cases "i = n")
    case True
    have "fold (peakStore ch step) [0..<Suc n] ps = peakStore ch step n ?qs" by simp
    then show ?thesis using Suc.prems len True peakStore_nth_same[of n ?qs ch step] by simp
  next
    case False
    then have "i < n" using Suc.prems by simp
    then have ih: "?qs ! (i * 2) = fst (peakBucket ch step i)" "?qs ! (i * 2 + 1) = snd (peakBucket ch step i)"
      using Suc by simp_all
    have "n * 2 \<noteq> i * 2" "n * 2 + 1 \<noteq> i * 2" "n * 2 \<noteq> i * 2 + 1" "n * 2 + 1 \<noteq> i * 2 + 1"
      using False by presburger+
    moreover have "fold (peakStore ch step) [0..<Suc n] ps = peakStore ch step n ?qs" by simp
    ultimately show ?thesis using ih by (simp add: peakStore_nth_other)
  qed
qed

lemma computePeaksWith_nth:
  assumes "i < b"
  shows "computePeaksWith b ch ! (i * 2) = fst (peakBucket ch (peakStep (length ch) b) i)"
    and "computePeaksWith b ch ! (i * 2 + 1) = snd (peakBucket ch (peakStep (length ch) b) i)"
  using nth_fold_peakStore[OF assms, of "replicate (b * 2) 0" ch "peakStep (length ch) b"]
  by (simp_all add: computePeaksWith_def Let_def)

lemma length_computePeaksWith: "length (computePeaksWith b ch) = 2 * b"
  by (simp add: computePeaksWith_def Let_def)

text \<open>
  Claim C1, as the code has it. The envelope has exactly \<open>2 \<times> bucketCount\<close> entries. For
  samples in \<open>[-1, 1]\<close> every entry lies in \<open>[-1, 1]\<close>; a bucket whose window holds at least
  one sample stores the minimum and the maximum of the window, so \<open>min \<le> max\<close>; a bucket
  whose window is empty keeps the initial values \<open>min = 1\<close> and \<open>max = -1\<close>.
\<close>

theorem peak_envelope_shape:
  assumes "\<forall>x\<in>set channels. - 1 \<le> x \<and> x \<le> 1" and "i < b"
  shows "length (computePeaksWith b channels) = 2 * b
    \<and> (let peaks = computePeaksWith b channels;
            step = peakStep (length channels) b;
            window = take step (drop (i * step) channels);
            mn = peaks ! (i * 2); mx = peaks ! (i * 2 + 1)
        in - 1 \<le> mn \<and> mn \<le> 1 \<and> - 1 \<le> mx \<and> mx \<le> 1
         \<and> (window \<noteq> [] \<longrightarrow> mn = Min (set window) \<and> mx = Max (set window) \<and> mn \<le> mx)
         \<and> (window = [] \<longrightarrow> mn = 1 \<and> mx = - 1)
         \<and> (window = [] \<longleftrightarrow> length channels \<le> i * step))"
proof -
  define step where "step = peakStep (length channels) b"
  define window where "window = take step (drop (i * step) channels)"
  have sub: "set window \<subseteq> set channels"
    unfolding window_def by (meson set_drop_subset set_take_subset subset_trans)
  have rng: "\<forall>x\<in>set window. - 1 \<le> x \<and> x \<le> 1" using assms(1) sub by blast
  have mn: "computePeaksWith b channels ! (i * 2) = Min (insert 1 (set window))"
    and mx: "computePeaksWith b channels ! (i * 2 + 1) = Max (insert (- 1) (set window))"
    using computePeaksWith_nth[OF assms(2), of channels]
    by (simp_all add: peakBucket_window step_def window_def)
  have b1: "- 1 \<le> Min (insert 1 (set window)) \<and> Min (insert 1 (set window)) \<le> 1"
    using rng by (simp add: Min_le_iff)
  have b2: "- 1 \<le> Max (insert (- 1) (set window)) \<and> Max (insert (- 1) (set window)) \<le> 1"
    using rng by (simp add: Max_ge_iff)
  have ne: "window \<noteq> [] \<longrightarrow> Min (insert 1 (set window)) = Min (set window)
      \<and> Max (insert (- 1) (set window)) = Max (set window)
      \<and> Min (insert 1 (set window)) \<le> Max (insert (- 1) (set window))"
  proof
    assume w: "window \<noteq> []"
    then have s: "set window \<noteq> {}" by simp
    obtain a where a: "a \<in> set window" using w by (cases window) auto
    have o: "Min (set window) \<le> a" "a \<le> Max (set window)" using a by simp_all
    have r: "- 1 \<le> a" "a \<le> 1" using rng a by simp_all
    have "Min (insert 1 (set window)) = min 1 (Min (set window))"
      "Max (insert (- 1) (set window)) = max (- 1) (Max (set window))"
      using s by simp_all
    then show "Min (insert 1 (set window)) = Min (set window)
      \<and> Max (insert (- 1) (set window)) = Max (set window)
      \<and> Min (insert 1 (set window)) \<le> Max (insert (- 1) (set window))"
      using o r by (simp add: min_def max_def)
  qed
  have em: "window = [] \<longrightarrow> Min (insert 1 (set window)) = 1 \<and> Max (insert (- 1) (set window)) = - 1"
    by simp
  have stp: "length channels \<noteq> 0 \<Longrightarrow> 0 < step"
  proof -
    assume "length channels \<noteq> 0"
    then have "0 < length channels" by simp
    then have "b \<le> length channels + b - 1" by linarith
    then show "0 < step"
      using assms(2) unfolding step_def peakStep_def by (simp add: div_greater_zero_iff)
  qed
  have iff: "window = [] \<longleftrightarrow> length channels \<le> i * step"
    unfolding window_def using stp by (cases "length channels = 0") auto
  have len: "length (computePeaksWith b channels) = 2 * b"
    by (rule length_computePeaksWith)
  show ?thesis
    unfolding Let_def step_def[symmetric] window_def[symmetric] mn mx
    using len b1 b2 ne em iff by blast
qed

theorem peak_envelope_shape_witness:
  "- 1 \<le> (1/2 :: real) \<and> (1/2 :: real) \<le> 1 \<and> - 1 \<le> (- 1/4 :: real) \<and> (- 1/4 :: real) \<le> 1
   \<and> (0::nat) < 2000
   \<and> length (computePeaksWith 2000 [1/2, - 1/4]) = 4000
   \<and> computePeaksWith 2000 [1/2, - 1/4] ! 0 = 1/2
   \<and> computePeaksWith 2000 [1/2, - 1/4] ! 1 = 1/2"
  using peak_envelope_shape[of "[1/2, - 1/4]" 0 2000]
  by (simp add: peakStep_def Let_def)

text \<open>
  Claim C1 as stated fails on a one-sample channel: bucket 1 of the 2000 buckets is empty
  and holds \<open>min = 1\<close>, \<open>max = -1\<close>, neither \<open>min \<le> max\<close> nor zero.
\<close>

theorem peak_empty_bucket_counterexample:
  "\<not> (computePeaks [1/2] ! 2 \<le> computePeaks [1/2] ! 3)
   \<and> computePeaks [1/2] ! 2 \<noteq> 0 \<and> computePeaks [1/2] ! 3 \<noteq> 0"
  using computePeaksWith_nth[of 1 2000 "[1/2]"]
  by (simp add: computePeaks_def buckets_def peakBucket_window peakStep_def)

section \<open>Active-cue lookup: proofs\<close>

lemma activeSubtitle_Some_iff:
  "activeSubtitle subs t = Some c \<longleftrightarrow>
     (\<exists>i<length subs. subs ! i = c \<and> js_le (startTime c) t \<and> js_le t (endTime c)
        \<and> (\<forall>j<i. \<not> (js_le (startTime (subs ! j)) t \<and> js_le t (endTime (subs ! j)))))"
  unfolding activeSubtitle_def js_ge_def find_Some_iff by blast

lemma activeSubtitle_None_iff:
  "activeSubtitle subs t = None \<longleftrightarrow>
     (\<forall>c\<in>set subs. \<not> (js_le (startTime c) t \<and> js_le t (endTime c)))"
  unfolding activeSubtitle_def js_ge_def find_None_iff by blast

lemma activeSubtitle_append:
  "\<forall>c\<in>set pre. \<not> (js_le (startTime c) t \<and> js_le t (endTime c)) \<Longrightarrow>
   js_le (startTime A) t \<Longrightarrow> js_le t (endTime A) \<Longrightarrow>
   activeSubtitle (pre @ A # rest) t = Some A"
  unfolding activeSubtitle_def js_ge_def by (induction pre) auto

text \<open>
  Claim C7. The lookup returns the first cue, in list order, whose range contains the
  playback time, both endpoints included, and returns nothing exactly when no range
  contains it; overlapping ranges are no failure. When cue A ends at 2.0, a later cue B
  starts at 2.0 and no cue before A contains 2.0, the lookup at 2.0 returns A.
\<close>

theorem active_cue_first_match:
  "(activeSubtitle subs t = Some c \<longleftrightarrow>
     (\<exists>i<length subs. subs ! i = c \<and> js_le (startTime c) t \<and> js_le t (endTime c)
        \<and> (\<forall>j<i. \<not> (js_le (startTime (subs ! j)) t \<and> js_le t (endTime (subs ! j))))))
   \<and> (activeSubtitle subs t = None \<longleftrightarrow>
     (\<forall>c\<in>set subs. \<not> (js_le (startTime c) t \<and> js_le t (endTime c))))
   \<and> (js_le (startTime A) (Fin 2) \<and> endTime A = Fin 2 \<and> startTime B = Fin 2
        \<and> (\<forall>c\<in>set pre. \<not> (js_le (startTime c) (Fin 2) \<and> js_le (Fin 2) (endTime c)))
      \<longrightarrow> activeSubtitle (pre @ A # mid @ B # post) (Fin 2) = Some A)"
  using activeSubtitle_Some_iff[of subs t c] activeSubtitle_None_iff[of subs t]
    activeSubtitle_append[of pre "Fin 2" A "mid @ B # post"]
  by simp

theorem active_cue_first_match_witness:
  "activeSubtitle
     [\<lparr>id' = 1, startTime = Fin 0, endTime = Fin 2, text' = [65]\<rparr>,
      \<lparr>id' = 2, startTime = Fin 2, endTime = Fin 4, text' = [66]\<rparr>] (Fin 2)
   = Some \<lparr>id' = 1, startTime = Fin 0, endTime = Fin 2, text' = [65]\<rparr>"
  using active_cue_first_match[of "[\<lparr>id' = 1, startTime = Fin 0, endTime = Fin 2, text' = [65]\<rparr>,
      \<lparr>id' = 2, startTime = Fin 2, endTime = Fin 4, text' = [66]\<rparr>]" "Fin 2" 
      "\<lparr>id' = 1, startTime = Fin 0, endTime = Fin 2, text' = [65]\<rparr>"
      "\<lparr>id' = 1, startTime = Fin 0, endTime = Fin 2, text' = [65]\<rparr>"
      "\<lparr>id' = 2, startTime = Fin 2, endTime = Fin 4, text' = [66]\<rparr>" "[]" "[]" "[]"]
  by simp

section \<open>PCM container writer: proofs\<close>

lemma length_storeLE16 [simp]: "length (storeLE16 view off v) = length view"
  by (simp add: storeLE16_def)

lemma length_storeLE32 [simp]: "length (storeLE32 view off v) = length view"
  by (simp add: storeLE32_def)

lemma length_storeString [simp]: "length (storeString view off cs) = length view"
  by (induction cs arbitrary: view off) simp_all

lemma length_storeSamples [simp]: "length (storeSamples view off xs) = length view"
  by (induction xs arbitrary: view off) simp_all

lemma writeString_Some:
  "off + length cs \<le> length view \<Longrightarrow> writeString view off cs = Some (storeString view off cs)"
  by (induction cs arbitrary: view off) (simp_all add: setUint8_def)

lemma writeSamples_Some:
  "off + 2 * length xs \<le> length view \<Longrightarrow> writeSamples view off xs = Some (storeSamples view off xs)"
  by (induction xs arbitrary: view off) (simp_all add: setInt16_def)

lemma setUint32_Some:
  "off + 4 \<le> length view \<Longrightarrow> setUint32 view off v = Some (storeLE32 view off (ToUint32 v))"
  by (simp add: setUint32_def)

lemma setUint16_Some:
  "off + 2 \<le> length view \<Longrightarrow> setUint16 view off v = Some (storeLE16 view off (ToUint16 v))"
  by (simp add: setUint16_def)

lemma nth_storeLE16_below: "j < off \<Longrightarrow> storeLE16 view off v ! j = view ! j"
  by (simp add: storeLE16_def)

lemma nth_storeSamples_below: "j < off \<Longrightarrow> storeSamples view off xs ! j = view ! j"
  by (induction xs arbitrary: view off) (simp_all add: nth_storeLE16_below)

lemma le32_decompose:
  fixes v :: nat
  assumes "v < 4294967296"
  shows "v mod 256 + 256 * (v div 256 mod 256) + 65536 * (v div 65536 mod 256)
           + 16777216 * (v div 16777216 mod 256) = v"
proof -
  define b where "b = v div 256"
  define c where "c = b div 256"
  define d where "d = c div 256"
  have c': "v div 65536 = c" unfolding c_def b_def by (simp add: div_mult2_eq[symmetric])
  have d': "v div 16777216 = d" unfolding d_def c_def b_def by (simp add: div_mult2_eq[symmetric])
  have "d < 256" using assms unfolding d'[symmetric] by (simp add: less_mult_imp_div_less)
  then have dm: "d mod 256 = d" by simp
  have 1: "v = v mod 256 + 256 * b" unfolding b_def by simp
  have 2: "b = b mod 256 + 256 * c" unfolding c_def by simp
  have 3: "c = c mod 256 + 256 * d" unfolding d_def by simp
  have "v mod 256 + 256 * (b mod 256) + 65536 * (c mod 256) + 16777216 * d = v"
    using 1 2 3 by linarith
  then show ?thesis using c' d' dm b_def by simp
qed

lemma getUint32_storeLE32:
  "off + 4 \<le> length view \<Longrightarrow> v < 4294967296 \<Longrightarrow> getUint32 (storeLE32 view off v) off = v"
  using le32_decompose[of v] by (simp add: getUint32_def storeLE32_def)

lemma getUint32_storeSamples:
  "off + 4 \<le> offset \<Longrightarrow> getUint32 (storeSamples view offset xs) off = getUint32 view off"
  by (simp add: getUint32_def nth_storeSamples_below)

lemma nth_storeLE32_other: "j < off \<or> off + 4 \<le> j \<Longrightarrow> storeLE32 view off v ! j = view ! j"
  by (auto simp: storeLE32_def)

lemma nth_storeLE16_other: "j < off \<or> off + 2 \<le> j \<Longrightarrow> storeLE16 view off v ! j = view ! j"
  by (auto simp: storeLE16_def)

lemma nth_storeString_below: "j < off \<Longrightarrow> storeString view off cs ! j = view ! j"
  by (induction cs arbitrary: view off) simp_all

lemma getUint16_storeLE16:
  "off + 2 \<le> length view \<Longrightarrow> v < 65536 \<Longrightarrow> getUint16 (storeLE16 view off v) off = v"
proof -
  assume a: "off + 2 \<le> length view" "v < 65536"
  have "v div 256 < 256" using a(2) by (simp add: less_mult_imp_div_less)
  then have "v mod 256 + 256 * (v div 256 mod 256) = v" by simp
  then show ?thesis using a(1) by (simp add: getUint16_def storeLE16_def)
qed

lemma getUint16_other:
  "off + 2 \<le> k \<Longrightarrow> getUint16 (storeLE16 view k v) off = getUint16 view off"
  "off + 2 \<le> k \<Longrightarrow> getUint16 (storeLE32 view k v) off = getUint16 view off"
  "off + 2 \<le> k \<Longrightarrow> getUint16 (storeString view k cs) off = getUint16 view off"
  "off + 2 \<le> k \<Longrightarrow> getUint16 (storeSamples view k xs) off = getUint16 view off"
  by (simp_all add: getUint16_def nth_storeLE16_other nth_storeLE32_other nth_storeString_below
        nth_storeSamples_below)

lemma ToUint16_nat: "ToUint16 (Fin (real n)) = n mod 65536"
proof -
  have "js_trunc (real n) = int n" by (simp add: js_trunc_def)
  then show ?thesis by (simp add: ToUint16_def nat_mod_distrib)
qed

lemma ToUint32_nat: "ToUint32 (Fin (real n)) = n mod 4294967296"
proof -
  have "js_trunc (real n) = int n" by (simp add: js_trunc_def)
  then show ?thesis by (simp add: ToUint32_def nat_mod_distrib)
qed

lemma length_lit [simp]: "length (lit s) = length s"
  by (simp add: lit_def)

lemma wav_layout:
  assumes "wavSamples buffer = Some result"
  shows "\<exists>out. audioBufferToWav buffer = Some out
           \<and> length out = 44 + 2 * length result
           \<and> getUint32 out 40 = (2 * length result) mod 4294967296
           \<and> getUint16 out 22 = numberOfChannels buffer mod 65536
           \<and> getUint16 out 32 = (numberOfChannels buffer * 2) mod 65536"
proof -
  have "audioBufferToWav buffer \<noteq> None \<and> length (the (audioBufferToWav buffer)) = 44 + 2 * length result
      \<and> getUint32 (the (audioBufferToWav buffer)) 40 = (2 * length result) mod 4294967296
      \<and> getUint16 (the (audioBufferToWav buffer)) 22 = numberOfChannels buffer mod 65536
      \<and> getUint16 (the (audioBufferToWav buffer)) 32 = (numberOfChannels buffer * 2) mod 65536"
    unfolding audioBufferToWav_def
    by (simp add: assms Let_def writeString_Some writeSamples_Some setUint32_Some setUint16_Some
          getUint32_storeSamples getUint32_storeLE32 ToUint32_nat ToUint16_nat mult.commute
          getUint16_other getUint16_storeLE16
          del: of_nat_mult of_nat_add)
  then show ?thesis by auto
qed

lemma length_interleave: "length (interleave left right) = length left + length right"
proof -
  have "length (fold (\<lambda>i result. (result[i * 2 := left ! i])
               [i * 2 + 1 := (if i < length right then right ! i else NaN)]) is acc) = length acc" for "is" acc
    by (induction "is" arbitrary: acc) simp_all
  then show ?thesis by (simp add: interleave_def)
qed

lemma validBuffer_channel:
  "validBuffer buffer \<Longrightarrow> c < numberOfChannels buffer \<Longrightarrow> length (channelData buffer ! c) = frameCount buffer"
  by (simp add: validBuffer_def numberOfChannels_def list_all_length)

lemma wavSamples_valid:
  assumes "validBuffer buffer"
  shows "\<exists>result. wavSamples buffer = Some result
     \<and> length result = (if numberOfChannels buffer = 2 then 2 * frameCount buffer else frameCount buffer)"
proof -
  have "0 < numberOfChannels buffer" using assms by (simp add: validBuffer_def numberOfChannels_def)
  then show ?thesis
    using validBuffer_channel[OF assms, of 0] validBuffer_channel[OF assms, of 1]
    by (auto simp: wavSamples_def getChannelData_def length_interleave)
qed

text \<open>
  Claim C2 holds for a mono or a stereo buffer: the output has \<open>44 + frames \<times> channels \<times> 2\<close>
  bytes and the data-chunk length at offset 40 is the number of bytes after the header
  (as an unsigned 32-bit field).
\<close>

lemma wav_length_mono_stereo:
  assumes "validBuffer buffer" "numberOfChannels buffer = 1 \<or> numberOfChannels buffer = 2"
  shows "\<exists>out. audioBufferToWav buffer = Some out
     \<and> length out = 44 + frameCount buffer * numberOfChannels buffer * 2
     \<and> getUint32 out 40 = (length out - 44) mod 4294967296"
proof -
  obtain result where r: "wavSamples buffer = Some result"
    "length result = (if numberOfChannels buffer = 2 then 2 * frameCount buffer else frameCount buffer)"
    using wavSamples_valid[OF assms(1)] by blast
  obtain out where o: "audioBufferToWav buffer = Some out" "length out = 44 + 2 * length result"
      "getUint32 out 40 = (2 * length result) mod 4294967296"
    using wav_layout[OF r(1)] by blast
  show ?thesis using o r(2) assms(2) by auto
qed

text \<open>
  Claim C2 at a buffer of three channels and one frame. Only the \<^verbatim>\<open>numChannels === 2\<close>
  branch interleaves; every other channel count takes channel 0 alone. The writer returns
  46 bytes where the claim asks for 50, while its own header declares 3 channels and a
  block align of 6 over a data chunk of 2 bytes.
\<close>

theorem wav_three_channels_short:
  "validBuffer surround3 \<and> numberOfChannels surround3 = 3 \<and> frameCount surround3 = 1
   \<and> map_option length (audioBufferToWav surround3) = Some 46
   \<and> 44 + frameCount surround3 * numberOfChannels surround3 * 2 = 50
   \<and> map_option (\<lambda>out. getUint16 out 22) (audioBufferToWav surround3) = Some 3
   \<and> map_option (\<lambda>out. getUint16 out 32) (audioBufferToWav surround3) = Some 6
   \<and> map_option (\<lambda>out. getUint32 out 40) (audioBufferToWav surround3) = Some 2"
proof -
  have v: "validBuffer surround3" by (simp add: validBuffer_def surround3_def frameCount_def)
  have n: "numberOfChannels surround3 = 3" by (simp add: numberOfChannels_def surround3_def)
  have f: "frameCount surround3 = 1" by (simp add: frameCount_def surround3_def)
  obtain result where r: "wavSamples surround3 = Some result" "length result = 1"
    using wavSamples_valid[OF v] n f by auto
  obtain out where "audioBufferToWav surround3 = Some out" "length out = 46"
    "getUint16 out 22 = 3" "getUint16 out 32 = 6" "getUint32 out 40 = 2"
    using wav_layout[OF r(1)] r(2) n by auto
  then show ?thesis using v n f by simp
qed

section \<open>Format negotiation: proofs\<close>













section \<open>End of recording: proofs\<close>

lemma trim_end_actions:
  assumes "\<not> paused v" "\<not> ended v" "js_ge (currentTime v) endTime'"
  shows "trimVideo_renderFrame startTime' endTime' v
           = [DrawImage, VideoPause, RecorderStop, OnProgress (Fin 100)]"
  using assms by (simp add: trimVideo_renderFrame_def)

text \<open>
  Claim C5 at the \<^verbatim>\<open>ended\<close> event of a conversion. Burn-in stops the recorder inside a
  timer of 1500 ms; conversion stops it in the handler itself, with no settle delay, and
  only then reports 100. Trim, once the end offset is reached, pauses the source and then
  stops the recorder in the same callback.
\<close>

theorem convert_stops_without_delay:
  "convertVideo_onended = [RecorderStop, OnProgress (Fin 100)]
   \<and> stopDelaysOf convertVideo_onended = [0]
   \<and> stopDelaysOf burnSubtitles_onended = [1500]
   \<and> trimVideo_renderFrame (Fin 3) (Fin 6)
         \<lparr>currentTime = Fin 6, duration = Fin 10, paused = False, ended = False\<rparr>
       = [DrawImage, VideoPause, RecorderStop, OnProgress (Fin 100)]
   \<and> stopDelaysOf [DrawImage, VideoPause, RecorderStop, OnProgress (Fin 100)] = [0]"
  by (simp add: convertVideo_onended_def burnSubtitles_onended_def stopDelaysOf_def
        trimVideo_renderFrame_def js_ge_def)

section \<open>Progress of the render loop: proofs\<close>

lemma progressValues_append:
  "progressValues (xs @ ys) = progressValues xs @ progressValues ys"
  by (induction xs rule: progressValues.induct) simp_all

lemma progressOf_Fin:
  "d \<noteq> 0 \<Longrightarrow> progressOf (Fin t) (Fin d) = Fin (min (t / d * 100) 99)"
  by (simp add: progressOf_def Math_min_def isNaN_def min_def)

lemma progressOf_le_99: "d \<noteq> 0 \<Longrightarrow> js_le (progressOf (Fin t) (Fin d)) (Fin 99)"
  by (simp add: progressOf_Fin)

lemma progressOf_mono:
  assumes "0 < d" "t1 \<le> t2"
  shows "js_le (progressOf (Fin t1) (Fin d)) (progressOf (Fin t2) (Fin d))"
proof -
  have "t1 / d * 100 \<le> t2 / d * 100" using assms by (simp add: divide_right_mono)
  then show ?thesis using assms(1) by (simp add: progressOf_Fin min_def)
qed

lemma renderLoop_progress_sorted:
  assumes one: "\<And>v. progressValues (f v) = [] \<or> progressValues (f v) = [P v]"
    and srt: "sorted_wrt js_le (map P vs)"
  shows "sorted_wrt js_le (progressValues (renderLoop f vs))
       \<and> set (progressValues (renderLoop f vs)) \<subseteq> P ` set vs"
  using srt
proof (induction vs)
  case Nil
  then show ?case by simp
next
  case (Cons v vs)
  then have ih: "sorted_wrt js_le (progressValues (renderLoop f vs))"
      "set (progressValues (renderLoop f vs)) \<subseteq> P ` set vs"
    and hd: "\<forall>w\<in>set vs. js_le (P v) (P w)"
    by auto
  have rest: "\<forall>p\<in>set (progressValues (renderLoop f vs)). js_le (P v) p"
    using ih(2) hd by auto
  show ?case
  proof (cases "RequestFrame \<in> set (f v)")
    case True
    then have "progressValues (renderLoop f (v # vs)) =
        progressValues (f v) @ progressValues (renderLoop f vs)"
      by (simp add: progressValues_append)
    then show ?thesis using one[of v] ih rest by auto
  next
    case False
    then have "progressValues (renderLoop f (v # vs)) = progressValues (f v)" by simp
    then show ?thesis using one[of v] by auto
  qed
qed

lemma sorted_map_time:
  assumes "sorted_wrt (<) ts" "map tm vs = map Fin ts"
    and "\<And>v w a b. v \<in> set vs \<Longrightarrow> w \<in> set vs \<Longrightarrow> tm v = Fin a \<Longrightarrow> tm w = Fin b \<Longrightarrow> a < b
           \<Longrightarrow> js_le (P v) (P w)"
  shows "sorted_wrt js_le (map P vs)"
  using assms
proof (induction vs arbitrary: ts)
  case Nil
  then show ?case by simp
next
  case (Cons v vs)
  then obtain a ts' where ts: "ts = a # ts'" "tm v = Fin a" "map tm vs = map Fin ts'"
    by (cases ts) auto
  have srt: "sorted_wrt (<) ts'" "\<forall>b\<in>set ts'. a < b" using Cons.prems(1) ts(1) by auto
  have "sorted_wrt js_le (map P vs)"
    using Cons.IH[OF srt(1) ts(3)] Cons.prems(3) by simp
  moreover have "js_le (P v) (P w)" if w: "w \<in> set vs" for w
  proof -
    have "tm w \<in> set (map tm vs)" using w by simp
    then obtain b where b: "tm w = Fin b" "b \<in> set ts'" unfolding ts(3) by auto
    then show ?thesis using Cons.prems(3)[of v w a b] ts(2) srt(2) w by simp
  qed
  ultimately show ?case by simp
qed

lemma burn_progress_one:
  "progressValues (burnSubtitles_renderFrame subs v) = []
   \<or> progressValues (burnSubtitles_renderFrame subs v) = [progressOf (currentTime v) (duration v)]"
  by (simp add: burnSubtitles_renderFrame_def progressValues_append split: option.split)

lemma convert_progress_one:
  "progressValues (convertVideo_renderFrame hasCanvas v) = []
   \<or> progressValues (convertVideo_renderFrame hasCanvas v) = [progressOf (currentTime v) (duration v)]"
  by (simp add: convertVideo_renderFrame_def progressValues_append)

lemma trim_progress_one:
  "progressValues (trimVideo_renderFrame s e v) = []
   \<or> progressValues (trimVideo_renderFrame s e v) = [trimProgress s e v]"
  by (simp add: trimVideo_renderFrame_def trimProgress_def Let_def)

lemma trimProgress_mono:
  assumes "s < e" "a \<le> b" "currentTime v = Fin a" "currentTime w = Fin b"
  shows "js_le (trimProgress (Fin s) (Fin e) v) (trimProgress (Fin s) (Fin e) w)"
proof -
  have d: "0 < e - s" using assms(1) by simp
  have le: "js_le (progressOf (Fin (a - s)) (Fin (e - s))) (Fin 100)"
    using d by (simp add: progressOf_Fin)
  show ?thesis
    using assms progressOf_mono[OF d, of "a - s" "b - s"] le
    by (auto simp: trimProgress_def js_ge_def js_sub_def)
qed

lemma trim_before_stop:
  assumes "\<forall>v\<in>set vs. \<exists>t. currentTime v = Fin t" "s < e"
  shows "list_all (\<lambda>p. js_le p (Fin 99))
     (progressValues (takeWhile (\<lambda>a. a \<noteq> RecorderStop)
        (renderLoop (trimVideo_renderFrame (Fin s) (Fin e)) vs)))"
  using assms(1)
proof (induction vs)
  case Nil
  then show ?case by simp
next
  case (Cons v vs)
  then obtain t where t: "currentTime v = Fin t" by auto
  have ih: "list_all (\<lambda>p. js_le p (Fin 99))
     (progressValues (takeWhile (\<lambda>a. a \<noteq> RecorderStop)
        (renderLoop (trimVideo_renderFrame (Fin s) (Fin e)) vs)))"
    using Cons by simp
  have d: "e - s \<noteq> 0" using assms(2) by simp
  let ?f = "trimVideo_renderFrame (Fin s) (Fin e)"
  have "?f v = [] \<or> ?f v = [DrawImage, VideoPause, RecorderStop, OnProgress (Fin 100)]
      \<or> ?f v = [DrawImage, OnProgress (progressOf (Fin (t - s)) (Fin (e - s))), RequestFrame]"
    using t by (simp add: trimVideo_renderFrame_def Let_def js_sub_def)
  then show ?case
    using ih progressOf_le_99[OF d, of "t - s"] by auto
qed

text \<open>
  Claim C6. When the source time strictly increases over the frame callbacks and the
  duration (burn-in, convert) or the range (trim) is fixed and positive, the progress
  values the render loop emits are non-decreasing, and each of them is at most 99; the
  only larger value, the 100 of the trim loop, comes after the recorder was stopped.
\<close>

theorem progress_monotone:
  assumes "sorted_wrt (<) ts" and "map currentTime vs = map Fin ts"
    and "\<forall>v\<in>set vs. duration v = Fin d" and "0 < d" and "s < e"
  shows "(let ps = progressValues (renderLoop (burnSubtitles_renderFrame subs) vs)
          in sorted_wrt js_le ps \<and> list_all (\<lambda>p. js_le p (Fin 99)) ps)
       \<and> (let ps = progressValues (renderLoop (convertVideo_renderFrame hasCanvas) vs)
          in sorted_wrt js_le ps \<and> list_all (\<lambda>p. js_le p (Fin 99)) ps)
       \<and> (let acts = renderLoop (trimVideo_renderFrame (Fin s) (Fin e)) vs
          in sorted_wrt js_le (progressValues acts)
           \<and> list_all (\<lambda>p. js_le p (Fin 99))
                 (progressValues (takeWhile (\<lambda>a. a \<noteq> RecorderStop) acts)))"
proof -
  let ?P = "\<lambda>v. progressOf (currentTime v) (duration v)"
  have fin: "\<forall>v\<in>set vs. \<exists>t. currentTime v = Fin t"
  proof
    fix v assume "v \<in> set vs"
    then have "currentTime v \<in> set (map currentTime vs)" by simp
    then show "\<exists>t. currentTime v = Fin t" unfolding assms(2) by auto
  qed
  have srtP: "sorted_wrt js_le (map ?P vs)"
  proof (rule sorted_map_time[OF assms(1) assms(2)])
    fix v w a b
    assume "v \<in> set vs" "w \<in> set vs" "currentTime v = Fin a" "currentTime w = Fin b" "a < b"
    then show "js_le (?P v) (?P w)"
      using assms(3) progressOf_mono[OF assms(4), of a b] by simp
  qed
  have le99: "\<forall>p\<in>?P ` set vs. js_le p (Fin 99)"
  proof
    fix p assume "p \<in> ?P ` set vs"
    then obtain v where v: "v \<in> set vs" "p = ?P v" by auto
    obtain t where "currentTime v = Fin t" using fin v(1) by auto
    then show "js_le p (Fin 99)"
      using v assms(3) assms(4) progressOf_le_99[of d t] by simp
  qed
  have burn: "sorted_wrt js_le (progressValues (renderLoop (burnSubtitles_renderFrame subs) vs))
      \<and> set (progressValues (renderLoop (burnSubtitles_renderFrame subs) vs)) \<subseteq> ?P ` set vs"
    by (rule renderLoop_progress_sorted[OF burn_progress_one srtP])
  have conv: "sorted_wrt js_le (progressValues (renderLoop (convertVideo_renderFrame hasCanvas) vs))
      \<and> set (progressValues (renderLoop (convertVideo_renderFrame hasCanvas) vs)) \<subseteq> ?P ` set vs"
    by (rule renderLoop_progress_sorted[OF convert_progress_one srtP])
  have srtT: "sorted_wrt js_le (map (trimProgress (Fin s) (Fin e)) vs)"
  proof (rule sorted_map_time[OF assms(1) assms(2)])
    fix v w a b
    assume "v \<in> set vs" "w \<in> set vs" "currentTime v = Fin a" "currentTime w = Fin b" "a < b"
    then show "js_le (trimProgress (Fin s) (Fin e) v) (trimProgress (Fin s) (Fin e) w)"
      using trimProgress_mono[OF assms(5), of a b v w] by simp
  qed
  have trim: "sorted_wrt js_le (progressValues (renderLoop (trimVideo_renderFrame (Fin s) (Fin e)) vs))"
    using renderLoop_progress_sorted[OF trim_progress_one srtT] by simp
  show ?thesis
    unfolding Let_def list_all_iff
    using burn conv trim le99 trim_before_stop[OF fin assms(5)]
    by (auto simp: list_all_iff)
qed


theorem progress_monotone_witness:
  "sorted_wrt (<) [1, 2 :: real] \<and> (0 :: real) < 4 \<and> (3 :: real) < 6
   \<and> sorted_wrt js_le (progressValues (renderLoop (burnSubtitles_renderFrame [])
         [\<lparr>currentTime = Fin 1, duration = Fin 4, paused = False, ended = False\<rparr>,
          \<lparr>currentTime = Fin 2, duration = Fin 4, paused = False, ended = False\<rparr>]))
   \<and> list_all (\<lambda>p. js_le p (Fin 99)) (progressValues (renderLoop (burnSubtitles_renderFrame [])
         [\<lparr>currentTime = Fin 1, duration = Fin 4, paused = False, ended = False\<rparr>,
          \<lparr>currentTime = Fin 2, duration = Fin 4, paused = False, ended = False\<rparr>]))"
  using progress_monotone[of "[1, 2]"
         "[\<lparr>currentTime = Fin 1, duration = Fin 4, paused = False, ended = False\<rparr>,
          \<lparr>currentTime = Fin 2, duration = Fin 4, paused = False, ended = False\<rparr>]" 4 3 6 "[]" True]
  by (simp add: Let_def)

section \<open>Offline mixing: proofs\<close>

lemma fold_PInf:
  "\<forall>t\<in>set tracks. \<exists>d. duration' t = Fin d \<Longrightarrow>
   fold (\<lambda>track acc. dbl_add acc (duration' track)) tracks PInf = PInf"
  by (induction tracks) (auto simp: dbl_add_def)

lemma durations_Fin:
  assumes "map duration' tracks = map Fin ds"
  shows "\<forall>t\<in>set tracks. \<exists>d. duration' t = Fin d"
proof
  fix t assume "t \<in> set tracks"
  then have "duration' t \<in> set (map duration' tracks)" by simp
  then have "duration' t \<in> set (map Fin ds)" using assms by simp
  then show "\<exists>d. duration' t = Fin d" by auto
qed

lemma fold_prefix_fin:
  assumes "map duration' tracks = map Fin ds" "\<forall>d\<in>set ds. 0 \<le> d"
    "fold (\<lambda>track acc. dbl_add acc (duration' track)) tracks (Fin c) = Fin T" "0 \<le> c"
  shows "\<forall>i\<le>length tracks. \<exists>t. 0 \<le> t
           \<and> fold (\<lambda>track acc. dbl_add acc (duration' track)) (take i tracks) (Fin c) = Fin t"
  using assms
proof (induction tracks arbitrary: ds c)
  case Nil
  then show ?case by simp
next
  case (Cons t tracks)
  let ?f = "\<lambda>track acc. dbl_add acc (duration' track)"
  obtain d ds' where ds: "ds = d # ds'" "duration' t = Fin d" "map duration' tracks = map Fin ds'"
    using Cons.prems(1) by (cases ds) auto
  have d0: "0 \<le> d" "\<forall>x\<in>set ds'. 0 \<le> x" using Cons.prems(2) ds(1) by auto
  have step: "dbl_add (Fin c) (duration' t) = fl (c + d)" by (simp add: ds(2) dbl_add_Fin)
  have nn: "0 \<le> c + d" using d0(1) Cons.prems(4) by simp
  have run: "fold ?f tracks (fl (c + d)) = Fin T" using Cons.prems(3) step by simp
  have "fl (c + d) \<noteq> PInf"
  proof
    assume "fl (c + d) = PInf"
    then have "fold ?f tracks (fl (c + d)) = PInf"
      using fold_PInf[OF durations_Fin[OF ds(3)]] by simp
    then show False using run by simp
  qed
  then obtain y where y: "fl (c + d) = Fin y"
    using fl_nonneg(1)[OF nn] by (cases "fl (c + d)") auto
  have y0: "0 \<le> y" by (rule fl_nonneg(2)[OF nn y])
  have run': "fold ?f tracks (Fin y) = Fin T" using run y by simp
  note IH = Cons.IH[OF ds(3) d0(2) run' y0]
  show ?case
  proof (intro allI impI)
    fix i assume i: "i \<le> length (t # tracks)"
    show "\<exists>u. 0 \<le> u \<and> fold ?f (take i (t # tracks)) (Fin c) = Fin u"
    proof (cases i)
      case 0
      then show ?thesis using Cons.prems(4) by simp
    next
      case (Suc j)
      then have "j \<le> length tracks" using i by simp
      then obtain u where "0 \<le> u" "fold ?f (take j tracks) (Fin y) = Fin u" using IH by blast
      then show ?thesis using Suc step y by auto
    qed
  qed
qed

lemma scheduleTracks_all:
  assumes "\<forall>t\<in>set tracks. buffer' t \<noteq> None"
    "\<forall>i<length tracks. \<exists>t. 0 \<le> t
        \<and> fold (\<lambda>track acc. dbl_add acc (duration' track)) (take i tracks) cur = Fin t"
  shows "\<exists>sch. scheduleTracks tracks cur = Some sch \<and> length sch = length tracks
     \<and> (\<forall>i<length tracks. fst (sch ! i) = the (buffer' (tracks ! i))
           \<and> Fin (snd (sch ! i)) = fold (\<lambda>track acc. dbl_add acc (duration' track)) (take i tracks) cur)"
  using assms
proof (induction tracks arbitrary: cur)
  case Nil
  then show ?case by simp
next
  case (Cons t tracks)
  let ?f = "\<lambda>track acc. dbl_add acc (duration' track)"
  obtain b where b: "buffer' t = Some b" using Cons.prems(1) by auto
  obtain c where c: "cur = Fin c" "0 \<le> c" using Cons.prems(2)[rule_format, of 0] by auto
  have bs: "\<forall>t\<in>set tracks. buffer' t \<noteq> None" using Cons.prems(1) by simp
  have pre: "\<forall>i<length tracks. \<exists>u. 0 \<le> u \<and> fold ?f (take i tracks) (dbl_add cur (duration' t)) = Fin u"
  proof (intro allI impI)
    fix i assume "i < length tracks"
    then have "Suc i < length (t # tracks)" by simp
    then show "\<exists>u. 0 \<le> u \<and> fold ?f (take i tracks) (dbl_add cur (duration' t)) = Fin u"
      using Cons.prems(2)[rule_format, of "Suc i"] by simp
  qed
  obtain sch where sch: "scheduleTracks tracks (dbl_add cur (duration' t)) = Some sch"
    "length sch = length tracks"
    "\<forall>i<length tracks. fst (sch ! i) = the (buffer' (tracks ! i))
        \<and> Fin (snd (sch ! i)) = fold ?f (take i tracks) (dbl_add cur (duration' t))"
    using Cons.IH[OF bs pre] by blast
  have run: "scheduleTracks (t # tracks) cur = Some ((b, c) # sch)"
    using b c sch(1) by simp
  have "fst (((b, c) # sch) ! i) = the (buffer' ((t # tracks) ! i))
      \<and> Fin (snd (((b, c) # sch) ! i)) = fold ?f (take i (t # tracks)) cur"
    if "i < length (t # tracks)" for i
  proof (cases i)
    case 0
    then show ?thesis using b c by simp
  next
    case (Suc j)
    then have "j < length tracks" using that by simp
    then show ?thesis using sch(3) Suc by simp
  qed
  then show ?case using run sch(2) by simp
qed

lemma ToUint32_floor:
  assumes "0 \<le> x" "x < 4294967296"
  shows "ToUint32 (Fin x) = nat \<lfloor>x\<rfloor>"
proof -
  have "0 \<le> \<lfloor>x\<rfloor>" "\<lfloor>x\<rfloor> < 4294967296" using assms by (simp_all add: floor_less_iff)
  then have "\<lfloor>x\<rfloor> mod 4294967296 = \<lfloor>x\<rfloor>" by (intro mod_pos_pos_trivial)
  then show ?thesis using assms(1) by (simp add: ToUint32_def js_trunc_def)
qed

lemma rendered_bounds:
  assumes "fl (44100 * T) = Fin len" "1 \<le> len" "len < 4294967296"
  shows "0 < T" and "real (nat \<lfloor>len\<rfloor>) / 44100 \<le> T * (1 + 1 / 2 ^ 53)"
    and "T * (1 - 1 / 2 ^ 53) - 1 / 44100 < real (nat \<lfloor>len\<rfloor>) / 44100"
    and "1 / 131072 < T" and "T < 2 ^ 53"
proof -
  have a: "2 powi (- 1021) < len" using tiny_less assms(2) by linarith
  have b: "len < 2 ^ 53" using assms(3) by simp
  note r = fl_result_rel[OF assms(1) a b]
  show "0 < T" using r(1) by simp
  have rn: "real (nat \<lfloor>len\<rfloor>) = of_int \<lfloor>len\<rfloor>" using assms(2) by simp
  have up: "real (nat \<lfloor>len\<rfloor>) \<le> len" unfolding rn by (rule of_int_floor_le)
  have lo: "len - 1 < real (nat \<lfloor>len\<rfloor>)" unfolding rn by linarith
  define A where "A = T / 2 ^ 53"
  have "\<bar>len - 44100 * T\<bar> \<le> 44100 * T / 2 ^ 53" by (rule r(2))
  moreover have "44100 * T / 2 ^ 53 = 44100 * A" by (simp add: A_def)
  ultimately have e: "\<bar>len - 44100 * T\<bar> \<le> 44100 * A" by (simp only:)
  have A1: "T * (1 + 1 / 2 ^ 53) = T + A" "T * (1 - 1 / 2 ^ 53) = T - A"
    by (simp_all add: A_def algebra_simps)
  have A2: "A \<le> T / 2" "0 \<le> A" using \<open>0 < T\<close> by (simp_all add: A_def)
  show "real (nat \<lfloor>len\<rfloor>) / 44100 \<le> T * (1 + 1 / 2 ^ 53)"
    unfolding A1 using up e by linarith
  show "T * (1 - 1 / 2 ^ 53) - 1 / 44100 < real (nat \<lfloor>len\<rfloor>) / 44100"
    unfolding A1 using lo e by linarith
  show "1 / 131072 < T" using e assms(2) A2 by linarith
  have "T < 4294967296" using e assms(3) A2 by linarith
  then show "T < 2 ^ 53" by simp
qed

lemma durationSum_two:
  assumes "duration' a = Fin d0" "duration' b = Fin d1" "isDouble d0"
  shows "durationSum [a, b] = fl (d0 + d1)" and "durationSum [a] = Fin d0"
  using assms by (simp_all add: durationSum_def dbl_add_Fin isDouble_def)

text \<open>
  Claim C8, as the code has it. For at least two tracks that all have a buffer and a
  finite, non-negative duration, \<^verbatim>\<open>totalDuration\<close> is the sum of the durations formed
  from the left in double arithmetic; the context has 2 channels at 44100 Hz; the length
  passed is the double product \<open>44100 \<times> totalDuration\<close> with no rounding up, and when that
  product is at least 1 and below \<open>2\<^sup>3\<^sup>2\<close> the host truncates it to its integer part; track
  \<open>i\<close> is started at the double sum of the durations of the tracks before it, the first
  at 0 and the second at the duration of the first. The rendered duration is therefore
  less than one frame (and a rounding error) short of the total and exceeds it by a
  rounding error at most; for two tracks the same holds against \<open>d1 + d2\<close>.
\<close>

theorem merge_plan:
  assumes "2 \<le> length tracks" and "\<forall>t\<in>set tracks. buffer' t \<noteq> None"
    and "map duration' tracks = map Fin ds" and "\<forall>d\<in>set ds. isDouble d \<and> 0 \<le> d"
    and "dbl_mul (Fin 44100) (durationSum tracks) = Fin len"
    and "1 \<le> len" and "len < 4294967296"
  shows "\<exists>plan T. handleMerge tracks = Inr plan
     \<and> durationSum tracks = Fin T
     \<and> ctxChannels (offlineCtx plan) = 2
     \<and> ctxSampleRate (offlineCtx plan) = 44100
     \<and> ctxLength (offlineCtx plan) = nat \<lfloor>len\<rfloor>
     \<and> length (scheduled plan) = length tracks
     \<and> (\<forall>i<length tracks. fst (scheduled plan ! i) = the (buffer' (tracks ! i))
            \<and> Fin (snd (scheduled plan ! i)) = durationSum (take i tracks))
     \<and> snd (scheduled plan ! 0) = 0
     \<and> snd (scheduled plan ! 1) = ds ! 0
     \<and> renderedDuration plan \<le> T * (1 + 1 / 2 ^ 53)
     \<and> T * (1 - 1 / 2 ^ 53) - 1 / 44100 < renderedDuration plan
     \<and> (length tracks = 2 \<longrightarrow>
           renderedDuration plan \<le> (ds ! 0 + ds ! 1) * (1 + 1 / 2 ^ 53) * (1 + 1 / 2 ^ 53)
         \<and> (ds ! 0 + ds ! 1) * (1 - 1 / 2 ^ 53) * (1 - 1 / 2 ^ 53) - 1 / 44100
               < renderedDuration plan)"
proof -
  let ?f = "\<lambda>track acc. dbl_add acc (duration' track)"
  let ?n = "nat \<lfloor>len\<rfloor>"
  have lens: "length ds = length tracks" using assms(3) by (metis length_map)
  have nneg: "\<forall>d\<in>set ds. 0 \<le> d" using assms(4) by blast
  obtain T where T: "durationSum tracks = Fin T" and fl: "fl (44100 * T) = Fin len"
    using assms(5) by (cases "durationSum tracks") (simp_all add: dbl_mul_def)
  have total: "fold ?f tracks (Fin 0) = Fin T" using T by (simp add: durationSum_def)
  note rb = rendered_bounds[OF fl assms(6,7)]
  have len: "ToUint32 (Fin len) = ?n"
    using ToUint32_floor[of len] assms(6,7) by simp
  have "1 \<le> \<lfloor>len\<rfloor>" using assms(6) by (simp add: le_floor_iff)
  then have n0: "?n \<noteq> 0" by simp
  have ctx: "OfflineAudioContext 2 (dbl_mul (Fin 44100) (Fin T)) 44100
      = Some \<lparr>ctxChannels = 2, ctxLength = ?n, ctxSampleRate = 44100\<rparr>"
    using len n0 fl by (simp add: OfflineAudioContext_def Let_def dbl_mul_Fin)
  have pre: "\<forall>i\<le>length tracks. \<exists>t. 0 \<le> t \<and> fold ?f (take i tracks) (Fin 0) = Fin t"
    by (rule fold_prefix_fin[OF assms(3) nneg total]) simp
  then have pre': "\<forall>i<length tracks. \<exists>t. 0 \<le> t \<and> fold ?f (take i tracks) (Fin 0) = Fin t"
    by auto
  obtain sch where sch: "scheduleTracks tracks (Fin 0) = Some sch" "length sch = length tracks"
    "\<forall>i<length tracks. fst (sch ! i) = the (buffer' (tracks ! i))
        \<and> Fin (snd (sch ! i)) = fold ?f (take i tracks) (Fin 0)"
    using scheduleTracks_all[OF assms(2) pre'] by blast
  define plan where
    "plan = \<lparr>offlineCtx = \<lparr>ctxChannels = 2, ctxLength = ?n, ctxSampleRate = 44100\<rparr>, scheduled = sch\<rparr>"
  have run: "handleMerge tracks = Inr plan"
    using assms(1) total ctx sch(1) by (simp add: handleMerge_def Let_def plan_def)
  have rd: "renderedDuration plan = real ?n / 44100" by (simp add: renderedDuration_def plan_def)
  have f2: "ctxChannels (offlineCtx plan) = 2" and f3: "ctxSampleRate (offlineCtx plan) = 44100"
    and f4: "ctxLength (offlineCtx plan) = ?n" and f5: "length (scheduled plan) = length tracks"
    using sch(2) by (simp_all add: plan_def)
  have s3: "\<forall>i<length tracks. fst (scheduled plan ! i) = the (buffer' (tracks ! i))
        \<and> Fin (snd (scheduled plan ! i)) = durationSum (take i tracks)"
    using sch(3) by (simp add: durationSum_def plan_def)
  have l01: "0 < length tracks" "1 < length tracks" using assms(1) by linarith+
  have "Fin (snd (scheduled plan ! 0)) = durationSum (take 0 tracks)" using s3 l01(1) by blast
  then have st0: "snd (scheduled plan ! 0) = 0" by (simp add: durationSum_def)
  obtain a b rest where tr: "tracks = a # b # rest"
    using assms(1) by (cases tracks; cases "tl tracks") auto
  have da: "duration' a = Fin (ds ! 0)" and db: "duration' b = Fin (ds ! 1)"
    using assms(3) tr by (cases ds; cases "tl ds"; auto)+
  have dbl0: "isDouble (ds ! 0)" using assms(4) lens tr by (cases ds) auto
  have "Fin (snd (scheduled plan ! 1)) = durationSum (take 1 tracks)" using s3 l01(2) by blast
  also have "\<dots> = Fin (ds ! 0)" using durationSum_two(2)[OF da db dbl0] tr by simp
  finally have st1: "snd (scheduled plan ! 1) = ds ! 0" by simp
  have f9: "renderedDuration plan \<le> T * (1 + 1 / 2 ^ 53)" unfolding rd by (rule rb(2))
  have f10: "T * (1 - 1 / 2 ^ 53) - 1 / 44100 < renderedDuration plan" unfolding rd by (rule rb(3))
  have two: "length tracks = 2 \<longrightarrow>
        renderedDuration plan \<le> (ds ! 0 + ds ! 1) * (1 + 1 / 2 ^ 53) * (1 + 1 / 2 ^ 53)
      \<and> (ds ! 0 + ds ! 1) * (1 - 1 / 2 ^ 53) * (1 - 1 / 2 ^ 53) - 1 / 44100 < renderedDuration plan"
  proof
    assume "length tracks = 2"
    then have "tracks = [a, b]" using tr by simp
    then have "fl (ds ! 0 + ds ! 1) = Fin T" using durationSum_two(1)[OF da db dbl0] T by simp
    moreover have "2 powi (- 1021) < T" using tiny_less rb(4) by linarith
    ultimately have r: "0 < ds ! 0 + ds ! 1" "\<bar>T - (ds ! 0 + ds ! 1)\<bar> \<le> (ds ! 0 + ds ! 1) / 2 ^ 53"
      using fl_result_rel[of "ds ! 0 + ds ! 1" T] rb(5) by blast+
    define S where "S = ds ! 0 + ds ! 1"
    define B where "B = S / 2 ^ 53"
    have e: "\<bar>T - S\<bar> \<le> B" using r(2) by (simp add: S_def B_def)
    have B1: "S * (1 + 1 / 2 ^ 53) = S + B" "S * (1 - 1 / 2 ^ 53) = S - B"
      by (simp_all add: B_def algebra_simps)
    have up: "T \<le> S * (1 + 1 / 2 ^ 53)" and lo: "S * (1 - 1 / 2 ^ 53) \<le> T"
      unfolding B1 using e by linarith+
    have "T * (1 + 1 / 2 ^ 53) \<le> S * (1 + 1 / 2 ^ 53) * (1 + 1 / 2 ^ 53)"
      using up by (rule mult_right_mono) simp
    then have 1: "renderedDuration plan \<le> S * (1 + 1 / 2 ^ 53) * (1 + 1 / 2 ^ 53)"
      using f9 by linarith
    have "S * (1 - 1 / 2 ^ 53) * (1 - 1 / 2 ^ 53) \<le> T * (1 - 1 / 2 ^ 53)"
      using lo by (rule mult_right_mono) simp
    then have 2: "S * (1 - 1 / 2 ^ 53) * (1 - 1 / 2 ^ 53) - 1 / 44100 < renderedDuration plan"
      using f10 by linarith
    show "renderedDuration plan \<le> (ds ! 0 + ds ! 1) * (1 + 1 / 2 ^ 53) * (1 + 1 / 2 ^ 53)
      \<and> (ds ! 0 + ds ! 1) * (1 - 1 / 2 ^ 53) * (1 - 1 / 2 ^ 53) - 1 / 44100 < renderedDuration plan"
      using 1 2 by (simp only: S_def)
  qed
  show ?thesis
    using run T f2 f3 f4 f5 s3 st0 st1 f9 f10 two by blast
qed

theorem merge_plan_witness:
  "map_sum id (\<lambda>plan. (ctxChannels (offlineCtx plan), ctxLength (offlineCtx plan), map snd (scheduled plan)))
      (handleMerge [shortTrack 1, shortTrack 2]) = Inr (2, 132300, [0, 1])"
proof -
  have b: "\<forall>t\<in>set [shortTrack 1, shortTrack 2]. buffer' t \<noteq> None"
    by (simp add: shortTrack_def)
  have d: "map duration' [shortTrack 1, shortTrack 2] = map Fin [1, 2]"
    by (simp add: shortTrack_def)
  have dd: "\<forall>d\<in>set [1, 2 :: real]. isDouble d \<and> 0 \<le> d"
    by (simp add: isDouble_def fl_small_ints)
  have s: "durationSum [shortTrack 1, shortTrack 2] = Fin 3"
    by (simp add: durationSum_def shortTrack_def dbl_add_Fin fl_small_ints)
  have m: "dbl_mul (Fin 44100) (durationSum [shortTrack 1, shortTrack 2]) = Fin 132300"
    by (simp add: s dbl_mul_Fin fl_small_ints)
  obtain plan where p: "handleMerge [shortTrack 1, shortTrack 2] = Inr plan"
    "ctxChannels (offlineCtx plan) = 2" "ctxLength (offlineCtx plan) = nat \<lfloor>132300 :: real\<rfloor>"
    "length (scheduled plan) = 2"
    "snd (scheduled plan ! 0) = 0" "snd (scheduled plan ! 1) = [1, 2 :: real] ! 0"
    using merge_plan[OF _ b d dd m] by auto
  have "map snd (scheduled plan) = [0, 1]"
    using p(4,5,6) by (cases "scheduled plan"; cases "tl (scheduled plan)") (auto simp: length_Suc_conv)
  then show ?thesis using p(1) p(2) p(3) by simp
qed

lemma fl_long_track:
  "fl (129 / 128) = Fin (129 / 128)" "fl (129 / 64) = Fin (129 / 64)"
  "fl (1422225 / 16) = Fin (1422225 / 16)"
proof -
  have p: "(2::real) powi (- 7) = 1 / 128" "(2::real) powi (- 6) = 1 / 64" "(2::real) powi (- 4) = 1 / 16"
    by (simp_all add: power_int_minus_divide)
  have big: "(2::real) powi 21 \<le> 2 powi 1024" by (intro power_int_increasing) simp_all
  have b: "\<bar>x\<bar> < 2097152 \<Longrightarrow> \<bar>x\<bar> < 2 powi 1024" for x :: real using big by simp
  show "fl (129 / 128) = Fin (129 / 128)"
    by (rule fl_exact[of _ 129 "- 7"]) (simp_all add: p b)
  show "fl (129 / 64) = Fin (129 / 64)"
    by (rule fl_exact[of _ 129 "- 6"]) (simp_all add: p b)
  show "fl (1422225 / 16) = Fin (1422225 / 16)"
    by (rule fl_exact[of _ 1422225 "- 4"]) (simp_all add: p b)
qed

text \<open>
  Claim C8 as stated fails for two tracks of \<open>129 / 128\<close> s each, where every step is exact:
  the context gets 88889 frames where the ceiling is 88890, and the rendered duration is
  shorter than \<open>d1 + d2\<close>.
\<close>

theorem merge_length_counterexample:
  "map_sum id (\<lambda>plan. ctxLength (offlineCtx plan)) (handleMerge [longTrack, longTrack]) = Inr 88889
   \<and> \<lceil>44100 * (129 / 128 + 129 / 128 :: real)\<rceil> = 88890
   \<and> map_sum id renderedDuration (handleMerge [longTrack, longTrack]) = Inr (88889 / 44100)
   \<and> (88889 / 44100 :: real) < 129 / 128 + 129 / 128"
proof -
  have fl: "\<lfloor>1422225 / 16 :: real\<rfloor> = 88889"
    by (simp add: floor_eq_iff)
  have cl: "\<lceil>44100 * (129 / 128 + 129 / 128 :: real)\<rceil> = 88890"
    by (simp add: ceiling_eq_iff)
  have "ToUint32 (Fin (1422225 / 16)) = nat \<lfloor>1422225 / 16 :: real\<rfloor>"
    by (rule ToUint32_floor) simp_all
  then have len: "ToUint32 (Fin (1422225 / 16)) = 88889"
    unfolding fl by simp
  have total: "fold (\<lambda>track acc. dbl_add acc (duration' track)) [longTrack, longTrack] (Fin 0)
      = Fin (129 / 64)"
    by (simp add: longTrack_def dbl_add_Fin fl_long_track)
  have ctx: "OfflineAudioContext 2 (dbl_mul (Fin 44100) (Fin (129 / 64))) 44100
      = Some \<lparr>ctxChannels = 2, ctxLength = 88889, ctxSampleRate = 44100\<rparr>"
    using len by (simp add: OfflineAudioContext_def Let_def dbl_mul_Fin fl_long_track)
  obtain sch where sch: "scheduleTracks [longTrack, longTrack] (Fin 0) = Some sch"
    by (simp add: longTrack_def dbl_add_Fin fl_long_track)
  have "handleMerge [longTrack, longTrack]
      = Inr \<lparr>offlineCtx = \<lparr>ctxChannels = 2, ctxLength = 88889, ctxSampleRate = 44100\<rparr>, scheduled = sch\<rparr>"
    unfolding handleMerge_def Let_def total using ctx sch by simp
  then show ?thesis using cl by (simp add: renderedDuration_def)
qed

section \<open>Time strings: proofs\<close>

lemma splitOn_nonempty [simp]: "splitOn c s \<noteq> []"
  by (induction s) (simp_all split: list.split)

lemma timeParts_nonempty: "timeParts s \<noteq> []"
  by (simp add: timeParts_def Let_def)

lemma timeToSeconds_not_NaN: "timeToSeconds ts \<noteq> NaN"
  by (simp add: timeToSeconds_def isNaN_def Let_def split: option.split)

lemma timeToSeconds_NaN_part:
  assumes "length (timeParts str) \<le> 3" "\<exists>p\<in>set (timeParts str). Number p = NaN"
  shows "timeToSeconds (Some str) = Fin 0"
proof (cases "str = []")
  case True
  then show ?thesis by (simp add: timeToSeconds_def)
next
  case False
  let ?parts = "map Number (timeParts str)"
  have len: "length ?parts = 1 \<or> length ?parts = 2 \<or> length ?parts = 3"
  proof -
    have "0 < length (timeParts str)" using timeParts_nonempty[of str] by simp
    then show ?thesis using assms(1) by (simp del: length_greater_0_conv) linarith
  qed
  have "NaN \<in> set ?parts" using assms(2) by force
  then obtain i where i: "i < length ?parts" "?parts ! i = NaN"
    unfolding in_set_conv_nth by blast
  let ?hours = "if length ?parts = 3 then ?parts ! 0 else Fin 0"
  let ?minutes = "if length ?parts = 3 then ?parts ! 1 else if length ?parts = 2 then ?parts ! 0 else Fin 0"
  let ?seconds = "if length ?parts = 3 then ?parts ! 2 else if length ?parts = 2 then ?parts ! 1
                  else if length ?parts = 1 then ?parts ! 0 else Fin 0"
  have "?hours = NaN \<or> ?minutes = NaN \<or> ?seconds = NaN"
    using len i by (auto simp: less_Suc_eq numeral_2_eq_2 numeral_3_eq_3 simp del: length_map nth_map)
  then have "dbl_add (dbl_add (dbl_mul ?hours (Fin 3600)) (dbl_mul ?minutes (Fin 60))) ?seconds = NaN"
    by (elim disjE) (simp_all only: dbl_NaN)
  then have r: "dbl_add (dbl_add (dbl_add (dbl_mul ?hours (Fin 3600)) (dbl_mul ?minutes (Fin 60))) ?seconds) x = NaN" for x
    by (simp only: dbl_NaN)
  show ?thesis
    unfolding timeToSeconds_def Let_def
    by (simp only: option.case False if_False isNaN_def r if_True simp_thms)
qed

lemma timeToSeconds_many_parts:
  assumes "str \<noteq> []" "3 < length (timeParts str)"
  shows "timeToSeconds (Some str)
       = dbl_div (if truthy (Number (millisPart str)) then Number (millisPart str) else Fin 0) (Fin 1000)"
proof -
  let ?parts = "map Number (timeParts str)"
  let ?M = "if truthy (Number (millisPart str)) then Number (millisPart str) else Fin 0"
  have len: "length ?parts \<noteq> 3" "length ?parts \<noteq> 2" "length ?parts \<noteq> 1"
    using assms(2) by simp_all
  have z: "dbl_add (dbl_add (dbl_mul (Fin 0) (Fin 3600)) (dbl_mul (Fin 0) (Fin 60))) (Fin 0) = Fin 0"
    by (simp add: dbl_add_Fin dbl_mul_Fin)
  have s: "dbl_add (Fin 0) (dbl_div ?M (Fin 1000)) = dbl_div ?M (Fin 1000)"
    unfolding dbl_div_def by (rule dbl_add_zero)
  have "?M \<noteq> NaN" by (simp add: truthy_def)
  then have "js_div ?M (Fin 1000) \<noteq> NaN" by (cases ?M) simp_all
  then have n: "dbl_div ?M (Fin 1000) \<noteq> NaN"
    unfolding dbl_div_def by (cases "js_div ?M (Fin 1000)") simp_all
  show ?thesis
    unfolding timeToSeconds_def Let_def
    by (simp only: option.case assms(1) if_False len z s isNaN_def n)
qed

text \<open>
  Claim C10, as the code has it. \<^verbatim>\<open>timeToSeconds\<close> returns a number for every input and
  never NaN; it returns 0 for \<^verbatim>\<open>undefined\<close>, \<^verbatim>\<open>null\<close> and the empty string, and for every
  string whose time part has at most three colon-separated parts of which one does not
  parse as a number. When the time part has more than three parts, no part is read and
  the result is \<^verbatim>\<open>(Number(milliseconds) || 0) / 1000\<close>: the milliseconds field over 1000,
  and 0 when that field is zero or does not parse.
\<close>

theorem timeToSeconds_total:
  "timeToSeconds ts \<noteq> NaN
   \<and> timeToSeconds None = Fin 0
   \<and> timeToSeconds (Some []) = Fin 0
   \<and> (length (timeParts str) \<le> 3 \<and> (\<exists>p\<in>set (timeParts str). Number p = NaN)
        \<longrightarrow> timeToSeconds (Some str) = Fin 0)
   \<and> (long \<noteq> [] \<and> 3 < length (timeParts long)
        \<longrightarrow> timeToSeconds (Some long)
              = dbl_div (if truthy (Number (millisPart long)) then Number (millisPart long) else Fin 0)
                  (Fin 1000)
          \<and> (\<not> truthy (Number (millisPart long)) \<longrightarrow> timeToSeconds (Some long) = Fin 0))"
proof -
  have "timeToSeconds (Some long) = Fin 0"
    if "long \<noteq> []" "3 < length (timeParts long)" "\<not> truthy (Number (millisPart long))"
    using timeToSeconds_many_parts[OF that(1,2)] that(3) by (simp add: dbl_div_Fin)
  then show ?thesis
    using timeToSeconds_not_NaN[of ts] timeToSeconds_NaN_part[of str] timeToSeconds_many_parts[of long]
    by (simp add: timeToSeconds_def)
qed

lemma Number_abc: "Number (lit ''abc'') = NaN"
  by (simp add: lit_def Number_def numericValue_def trim_def isWhite_def unsignedDecimal_def isDigit_def Let_def)

lemma four_numbers:
  "timeParts (lit ''1:2:3:4,250'') = [lit ''1'', lit ''2'', lit ''3'', lit ''4'']"
  "Number (millisPart (lit ''1:2:3:4,250'')) = Fin 250"
  by (simp_all add: timeParts_def millisPart_def lit_def Number_def numericValue_def trim_def isWhite_def
      unsignedDecimal_def isDigit_def exponentPart_def digitsValue_def pow10_def Let_def fl_millis)

theorem timeToSeconds_total_witness:
  "timeParts (lit ''abc'') = [lit ''abc''] \<and> Number (lit ''abc'') = NaN
   \<and> timeToSeconds (Some (lit ''abc'')) = Fin 0
   \<and> length (timeParts (lit ''1:2:3:4,250'')) = 4
   \<and> timeToSeconds (Some (lit ''1:2:3:4,250'')) = Fin (1 / 4)"
proof -
  have p: "timeParts (lit ''abc'') = [lit ''abc'']"
    by (simp add: timeParts_def lit_def Let_def)
  then have h: "length (timeParts (lit ''abc'')) \<le> 3 \<and> (\<exists>p\<in>set (timeParts (lit ''abc'')). Number p = NaN)"
    using Number_abc by simp
  have l: "lit ''1:2:3:4,250'' \<noteq> [] \<and> 3 < length (timeParts (lit ''1:2:3:4,250''))"
    by (simp add: four_numbers(1)) (simp add: lit_def)
  note t = timeToSeconds_total[of None "lit ''abc''" "lit ''1:2:3:4,250''"]
  have 1: "timeToSeconds (Some (lit ''abc'')) = Fin 0" using t h by blast
  have "timeToSeconds (Some (lit ''1:2:3:4,250''))
      = dbl_div (if truthy (Number (millisPart (lit ''1:2:3:4,250'')))
                 then Number (millisPart (lit ''1:2:3:4,250'')) else Fin 0) (Fin 1000)"
    using t l by blast
  then have 2: "timeToSeconds (Some (lit ''1:2:3:4,250'')) = Fin (1 / 4)"
    by (simp add: four_numbers(2) truthy_def dbl_div_Fin fl_millis)
  show ?thesis using p Number_abc 1 2 by (simp add: four_numbers(1))
qed

lemma four_letters:
  "timeParts (lit ''a:b:c:d,500'') = [lit ''a'', lit ''b'', lit ''c'', lit ''d'']"
  "Number (millisPart (lit ''a:b:c:d,500'')) = Fin 500"
  "list_all (\<lambda>p. Number p = NaN) [lit ''a'', lit ''b'', lit ''c'', lit ''d'']"
  by (simp_all add: timeParts_def millisPart_def lit_def Number_def numericValue_def trim_def isWhite_def
      unsignedDecimal_def isDigit_def exponentPart_def digitsValue_def pow10_def Let_def fl_millis)

text \<open>
  Claim C10 as stated fails on \<^verbatim>\<open>"a:b:c:d,500"\<close>: none of the four parts parses as a
  number, no branch reads them, and the result is the milliseconds alone, 0.5.
\<close>

theorem timeToSeconds_four_parts_counterexample:
  "timeParts (lit ''a:b:c:d,500'') = [lit ''a'', lit ''b'', lit ''c'', lit ''d'']
   \<and> list_all (\<lambda>p. Number p = NaN) (timeParts (lit ''a:b:c:d,500''))
   \<and> timeToSeconds (Some (lit ''a:b:c:d,500'')) = Fin (1 / 2)
   \<and> timeToSeconds (Some (lit ''a:b:c:d,500'')) \<noteq> Fin 0"
proof -
  have l: "lit ''a:b:c:d,500'' \<noteq> []" "3 < length (timeParts (lit ''a:b:c:d,500''))"
    by (simp add: lit_def) (simp add: four_letters(1))
  have "timeToSeconds (Some (lit ''a:b:c:d,500'')) = Fin (1 / 2)"
    unfolding timeToSeconds_many_parts[OF l]
    by (simp add: four_letters(2) truthy_def dbl_div_Fin fl_millis)
  then show ?thesis using four_letters(3) by (simp add: four_letters(1))
qed

section \<open>Subtitle round trip: proofs\<close>

lemma digit_facts:
  assumes "isDigit a"
  shows "a \<noteq> 58" "a \<noteq> 44" "a \<noteq> 46" "a \<noteq> 45" "a \<noteq> 62" "a \<noteq> 10" "a \<noteq> 13" "a \<noteq> 32"
    "a \<noteq> 43" "a \<noteq> 73" "a \<noteq> 101" "a \<noteq> 69" "\<not> isWhite a"
  using assms by (auto simp: isDigit_def isWhite_def)

lemma isWhite_simps [simp]:
  "isWhite 10" "isWhite 13" "isWhite 32" "\<not> isWhite 45" "\<not> isWhite 58" "\<not> isWhite 44" "\<not> isWhite 62"
  by (simp_all add: isWhite_def)

lemma trim_id:
  assumes "s \<noteq> []" "\<not> isWhite (hd s)" "\<not> isWhite (last s)"
  shows "trim s = s"
proof -
  have 1: "dropWhile isWhite s = s" using assms(1,2) by (cases s) simp_all
  have "dropWhile isWhite (rev s) = rev s"
    using assms(1,3) by (cases "rev s") (simp_all add: last_rev[symmetric] hd_rev)
  then show ?thesis by (simp add: trim_def 1)
qed

lemma trim_nonempty:
  assumes "t \<noteq> []" "\<not> isWhite (last t)"
  shows "trim t \<noteq> []"
proof -
  let ?d = "dropWhile isWhite t"
  have "last t \<in> set t" using assms(1) by simp
  then have d: "?d \<noteq> []" using assms(2) by (auto simp: dropWhile_eq_Nil_conv)
  then have "\<not> isWhite (hd ?d)" by (rule hd_dropWhile)
  moreover have "hd ?d \<in> set (rev ?d)" using d by simp
  ultimately have "dropWhile isWhite (rev ?d) \<noteq> []" by (auto simp: dropWhile_eq_Nil_conv)
  then show ?thesis by (simp add: trim_def)
qed

lemma splitOn_append: "c \<notin> set a \<Longrightarrow> splitOn c (a @ c # b) = a # splitOn c b"
  by (induction a) (auto split: list.split)

lemma splitOn_none: "c \<notin> set a \<Longrightarrow> splitOn c a = [a]"
  by (induction a) (auto split: list.split)

lemma join_Cons_Cons: "join sep ((x # p) # ps) = x # join sep (p # ps)"
  by (cases ps) simp_all

lemma splitOn_ne: "splitOn c s \<noteq> []"
  by (induction s) (simp_all split: list.split)

lemma join_splitOn: "join [c] (splitOn c s) = s"
proof (induction s)
  case Nil
  then show ?case by simp
next
  case (Cons x xs)
  obtain p ps where p: "splitOn c xs = p # ps" using splitOn_ne[of c xs] by (cases "splitOn c xs") auto
  show ?case using Cons p by (simp add: join_Cons_Cons)
qed

lemma includes_no_dash: "45 \<notin> set s \<Longrightarrow> \<not> includes' s (lit ''-->'')"
  by (induction s) (auto simp: lit_def)

lemma includes_here: "includes' (sub @ b) sub"
proof (cases "sub @ b")
  case Nil
  then show ?thesis by simp
next
  case (Cons x xs)
  have "take (length sub) (sub @ b) = sub" by simp
  then show ?thesis unfolding Cons by simp
qed

lemma includes_append: "includes' (a @ sub @ b) sub"
  by (induction a) (auto simp: includes_here)

lemma seqs_simps:
  "seqs [] = Eps" "seqs (r # rs) = Seq r (seqs rs)"
  by (simp_all add: seqs_def)

lemma starMatch_chr:
  "starMatch (rmatch (Chr p)) (Suc n) (r, c)
     = (case r of [] \<Rightarrow> [] | x # xs \<Rightarrow> if p x then starMatch (rmatch (Chr p)) n (xs, c) else [])
       @ [(r, c)]"
  by (cases r) simp_all

lemma star_chr_states:
  "set (starMatch (rmatch (Chr p)) n (r, c))
     \<subseteq> (\<lambda>k. (drop k r, c)) ` {k. k \<le> length (takeWhile p r)}"
proof (induction n arbitrary: r)
  case 0
  have "(r, c) \<in> (\<lambda>k. (drop k r, c)) ` {k. k \<le> length (takeWhile p r)}"
    by (rule image_eqI[of _ _ 0]) simp_all
  then show ?case by (simp del: rmatch.simps)
next
  case (Suc n)
  have mem0: "(r, c) \<in> (\<lambda>k. (drop k r, c)) ` {k. k \<le> length (takeWhile p r)}"
    by (rule image_eqI[of _ _ 0]) simp_all
  show ?case
  proof (cases r)
    case Nil
    then show ?thesis unfolding starMatch_chr using mem0 by (simp del: rmatch.simps starMatch.simps)
  next
    case (Cons x xs)
    show ?thesis
    proof (cases "p x")
      case True
      have "set (starMatch (rmatch (Chr p)) n (xs, c))
          \<subseteq> (\<lambda>k. (drop k r, c)) ` {k. k \<le> length (takeWhile p r)}"
      proof
        fix st assume "st \<in> set (starMatch (rmatch (Chr p)) n (xs, c))"
        then have "st \<in> (\<lambda>k. (drop k xs, c)) ` {k. k \<le> length (takeWhile p xs)}"
          using Suc[of xs] by blast
        then obtain k where "k \<le> length (takeWhile p xs)" "st = (drop k xs, c)"
          by blast
        then have "Suc k \<le> length (takeWhile p r)" "st = (drop (Suc k) r, c)"
          using Cons True by simp_all
        then show "st \<in> (\<lambda>k. (drop k r, c)) ` {k. k \<le> length (takeWhile p r)}" by blast
      qed
      then show ?thesis unfolding starMatch_chr using mem0 Cons True
        by (simp del: rmatch.simps starMatch.simps)
    next
      case False
      then show ?thesis unfolding starMatch_chr using mem0 Cons
        by (simp del: rmatch.simps starMatch.simps)
    qed
  qed
qed

lemma sep_no_match_other: "x \<noteq> 10 \<Longrightarrow> rmatch blockSeparator (x # r, c) = []"
  by (simp add: blockSeparator_def seqs_simps)

lemma sep_no_match_empty: "rmatch blockSeparator ([], c) = []"
  by (simp add: blockSeparator_def seqs_simps)

lemma sep_no_match_line:
  assumes "10 \<notin> set (takeWhile isWhite r)"
  shows "rmatch blockSeparator (10 # r, c) = []"
proof -
  have "rmatch (Seq (Chr (\<lambda>c. c = 10)) Eps) st = []"
    if "st \<in> set (rmatch (Star (Chr isWhite)) (r, c))" for st
  proof -
    have "st \<in> set (starMatch (rmatch (Chr isWhite)) (length r) (r, c))" using that by simp
    then have "st \<in> (\<lambda>k. (drop k r, c)) ` {k. k \<le> length (takeWhile isWhite r)}"
      using star_chr_states[of isWhite "length r" r c] by blast
    then obtain k where k: "k \<le> length (takeWhile isWhite r)" "st = (drop k r, c)" by blast
    have "drop k r = [] \<or> hd (drop k r) \<noteq> 10"
    proof (cases "k < length (takeWhile isWhite r)")
      case True
      then have "takeWhile isWhite r ! k \<in> set (takeWhile isWhite r)" by simp
      moreover have "takeWhile isWhite r ! k = r ! k" using True by (rule takeWhile_nth)
      moreover have "k < length r" using True length_takeWhile_le[of isWhite r] by simp
      ultimately show ?thesis using assms by (auto simp: hd_drop_conv_nth)
    next
      case False
      then have e: "k = length (takeWhile isWhite r)" using k(1) by simp
      show ?thesis
      proof (cases "k < length r")
        case True
        then have "\<not> isWhite (r ! k)" unfolding e by (rule nth_length_takeWhile)
        then show ?thesis using True by (auto simp: hd_drop_conv_nth)
      next
        case False
        then show ?thesis by simp
      qed
    qed
    then show ?thesis unfolding k(2) by (cases "drop k r") auto
  qed
  then have "concat (map (rmatch (Seq (Chr (\<lambda>c. c = 10)) Eps)) (rmatch (Star (Chr isWhite)) (r, c))) = []"
    by simp
  then show ?thesis
    by (simp add: blockSeparator_def seqs_simps del: rmatch.simps(4))
qed

lemma sep_match_double:
  assumes "\<not> isWhite y"
  shows "rmatch blockSeparator (10 # 10 # y # r, c) = [(y # r, c)]"
proof -
  have "y \<noteq> 10" using assms by auto
  then show ?thesis using assms by (simp add: blockSeparator_def seqs_simps)
qed

lemma stamp_match:
  assumes "isDigit a1" "isDigit a2" "isDigit b1" "isDigit b2" "isDigit c1" "isDigit c2"
    "isDigit e1" "isDigit e2" "isDigit e3"
  shows "rmatch timestampRegex (a1 # a2 # 58 # b1 # b2 # 58 # c1 # c2 # 44 # e1 # e2 # e3 # r, c)
      = [(r, c), (e3 # r, c), (e2 # e3 # r, c), (44 # e1 # e2 # e3 # r, c)]"
  using assms by (simp add: timestampRegex_def seqs_simps digit_facts)

lemma timeline_exec:
  assumes "isDigit a1" "isDigit a2" "isDigit b1" "isDigit b2" "isDigit c1" "isDigit c2"
    "isDigit e1" "isDigit e2" "isDigit e3"
    "isDigit a1'" "isDigit a2'" "isDigit b1'" "isDigit b2'" "isDigit c1'" "isDigit c2'"
    "isDigit e1'" "isDigit e2'" "isDigit e3'"
  shows "regexExec timeLineRegex
      ([a1, a2, 58, b1, b2, 58, c1, c2, 44, e1, e2, e3] @ lit '' --> ''
         @ [a1', a2', 58, b1', b2', 58, c1', c2', 44, e1', e2', e3'])
    = Some (noCaptures(1 := [a1, a2, 58, b1, b2, 58, c1, c2, 44, e1, e2, e3],
                       2 := [a1', a2', 58, b1', b2', 58, c1', c2', 44, e1', e2', e3']))"
  using assms
  by (simp add: timeLineRegex_def seqs_simps lit_def stamp_match digit_facts)

lemma split_scan_end:
  assumes "\<not> hasBlankLine s" "s = [] \<or> \<not> isWhite (last s)"
  shows "splitLoop blockSeparator s 0 cur = [rev cur @ s]"
  using assms
proof (induction s arbitrary: cur)
  case Nil
  then show ?case by simp
next
  case (Cons x s)
  have nb: "\<not> hasBlankLine s" "\<not> (x = 10 \<and> 10 \<in> set (takeWhile isWhite s))"
    using Cons.prems(1) by simp_all
  have lw: "\<not> isWhite (last (x # s))" using Cons.prems(2) by simp
  have tl: "s = [] \<or> \<not> isWhite (last s)" using lw by (cases s) simp_all
  have nom: "rmatch blockSeparator (x # s, noCaptures) = []"
  proof (cases "x = 10")
    case True
    then show ?thesis using nb(2) sep_no_match_line by simp
  next
    case False
    then show ?thesis by (rule sep_no_match_other)
  qed
  show ?case using Cons.IH[OF nb(1) tl, of "x # cur"] nom by simp
qed

lemma split_scan_mid:
  assumes "\<not> hasBlankLine s" "s = [] \<or> \<not> isWhite (last s)" "\<not> isWhite y"
  shows "splitLoop blockSeparator (s @ 10 # 10 # y # r) 0 cur
       = (rev cur @ s) # splitLoop blockSeparator (y # r) 0 []"
  using assms(1,2)
proof (induction s arbitrary: cur)
  case Nil
  show ?case using sep_match_double[OF assms(3), of r noCaptures] by simp
next
  case (Cons x s)
  have nb: "\<not> hasBlankLine s" "\<not> (x = 10 \<and> 10 \<in> set (takeWhile isWhite s))"
    using Cons.prems(1) by simp_all
  have lw: "\<not> isWhite (last (x # s))" using Cons.prems(2) by simp
  have tl: "s = [] \<or> \<not> isWhite (last s)" using lw by (cases s) simp_all
  have nom: "rmatch blockSeparator (x # s @ 10 # 10 # y # r, noCaptures) = []"
  proof (cases "x = 10")
    case True
    then have "s \<noteq> []" using lw by auto
    then have "last s \<in> set s" "\<not> isWhite (last s)" using tl by simp_all
    then have "takeWhile isWhite (s @ 10 # 10 # y # r) = takeWhile isWhite s"
      by (rule takeWhile_append1)
    then show ?thesis using True nb(2) sep_no_match_line by simp
  next
    case False
    then show ?thesis by (rule sep_no_match_other)
  qed
  show ?case using Cons.IH[OF nb(1) tl, of "x # cur"] nom by simp
qed

lemma join_Cons: "join sep (b # bs) = b @ (if bs = [] then [] else sep @ join sep bs)"
  by (cases bs) simp_all

lemma split_join:
  assumes "bs \<noteq> []"
    and "\<forall>b\<in>set bs. b \<noteq> [] \<and> \<not> isWhite (hd b) \<and> \<not> isWhite (last b) \<and> \<not> hasBlankLine b"
  shows "regexSplit blockSeparator (join [10, 10] bs) = bs"
  using assms
proof (induction bs rule: list_nonempty_induct)
  case (single b)
  then show ?case using split_scan_end[of b "[]"] by (simp add: regexSplit_def)
next
  case (cons b bs)
  obtain b' bs' where bs: "bs = b' # bs'" using cons.hyps(1) by (cases bs) auto
  have gb': "b' \<noteq> []" "\<not> isWhite (hd b')" using cons.prems bs by simp_all
  obtain y r where yr: "join [10, 10] bs = y # r" "\<not> isWhite y"
    using gb' bs by (cases b') (simp_all add: join_Cons)
  have gb: "\<not> hasBlankLine b" "b = [] \<or> \<not> isWhite (last b)" using cons.prems by simp_all
  have ih: "splitLoop blockSeparator (join [10, 10] bs) 0 [] = bs"
    using cons.IH cons.prems by (simp add: regexSplit_def)
  have "join [10, 10] (b # bs) = b @ 10 # 10 # y # r"
    using cons.hyps(1) yr(1) by (simp add: join_Cons)
  then show ?case
    using split_scan_mid[OF gb yr(2), of r "[]"] ih yr(1) by (simp add: regexSplit_def)
qed

lemma isStamp_explicit:
  assumes "isStamp ts"
  obtains a1 a2 b1 b2 c1 c2 e1 e2 e3 where
    "ts = [a1, a2, 58, b1, b2, 58, c1, c2, 44, e1, e2, e3]"
    "isDigit a1" "isDigit a2" "isDigit b1" "isDigit b2" "isDigit c1" "isDigit c2"
    "isDigit e1" "isDigit e2" "isDigit e3"
proof -
  have "length ts = 12" using assms by (simp add: isStamp_def)
  then obtain x0 x1 x2 x3 x4 x5 x6 x7 x8 x9 x10 x11 where
    ts: "ts = [x0, x1, x2, x3, x4, x5, x6, x7, x8, x9, x10, x11]"
    by (auto simp: eval_nat_numeral length_Suc_conv)
  show ?thesis
    using assms that[of x0 x1 x3 x4 x6 x7 x9 x10 x11] unfolding ts isStamp_def
    by (simp add: eval_nat_numeral)
qed

lemma isStamp_timeline:
  assumes "isStamp ts1" "isStamp ts2"
  shows "10 \<notin> set (ts1 @ lit '' --> '' @ ts2)"
    and "includes' (ts1 @ lit '' --> '' @ ts2) (lit ''-->'')"
    and "\<exists>caps. regexExec timeLineRegex (ts1 @ lit '' --> '' @ ts2) = Some caps
           \<and> caps 1 = ts1 \<and> caps 2 = ts2"
    and "13 \<notin> set (ts1 @ lit '' --> '' @ ts2)"
    and "ts1 \<noteq> []" and "\<not> isWhite (hd ts1)"
proof -
  obtain a1 a2 b1 b2 c1 c2 e1 e2 e3 where
    t1: "ts1 = [a1, a2, 58, b1, b2, 58, c1, c2, 44, e1, e2, e3]"
    and d1: "isDigit a1" "isDigit a2" "isDigit b1" "isDigit b2" "isDigit c1" "isDigit c2"
      "isDigit e1" "isDigit e2" "isDigit e3"
    using isStamp_explicit[OF assms(1)] by metis
  obtain a1' a2' b1' b2' c1' c2' e1' e2' e3' where
    t2: "ts2 = [a1', a2', 58, b1', b2', 58, c1', c2', 44, e1', e2', e3']"
    and d2: "isDigit a1'" "isDigit a2'" "isDigit b1'" "isDigit b2'" "isDigit c1'" "isDigit c2'"
      "isDigit e1'" "isDigit e2'" "isDigit e3'"
    using isStamp_explicit[OF assms(2)] by metis
  note n10 = d1[THEN digit_facts(6)] d2[THEN digit_facts(6)]
  note n13 = d1[THEN digit_facts(7)] d2[THEN digit_facts(7)]
  show "10 \<notin> set (ts1 @ lit '' --> '' @ ts2)"
    unfolding t1 t2 using n10 by (simp add: lit_def)
  show "13 \<notin> set (ts1 @ lit '' --> '' @ ts2)"
    unfolding t1 t2 using n13 by (simp add: lit_def)
  have "ts1 @ lit '' --> '' @ ts2 = (ts1 @ [32]) @ lit ''-->'' @ ([32] @ ts2)"
    by (simp add: lit_def)
  then show "includes' (ts1 @ lit '' --> '' @ ts2) (lit ''-->'')"
    using includes_append[of "ts1 @ [32]" "lit ''-->''" "[32] @ ts2"] by simp
  show "\<exists>caps. regexExec timeLineRegex (ts1 @ lit '' --> '' @ ts2) = Some caps
           \<and> caps 1 = ts1 \<and> caps 2 = ts2"
    unfolding t1 t2 using timeline_exec[OF d1 d2] by simp
  show "ts1 \<noteq> []" unfolding t1 by simp
  show "\<not> isWhite (hd ts1)" unfolding t1 using digit_facts(13)[OF d1(1)] by simp
qed

lemma digits_facts:
  assumes "list_all isDigit n"
  shows "10 \<notin> set n" "45 \<notin> set n" "13 \<notin> set n" "\<forall>x\<in>set n. \<not> isWhite x"
  using assms by (auto simp: list_all_iff isDigit_def isWhite_def)

lemma parseBlock_lines:
  assumes "splitOn 10 (trim B) = n # line # rest" "\<not> includes' n (lit ''-->'')"
    "includes' line (lit ''-->'')" "regexExec timeLineRegex line = Some caps"
    "trim (join [10] rest) \<noteq> []"
  shows "parseBlock B subs
     = subs @ [\<lparr>id' = length subs + 1, startTime = timeToSeconds (Some (caps 1)),
                endTime = timeToSeconds (Some (caps 2)), text' = trim (join [10] rest)\<rparr>]"
  by (simp add: parseBlock_def assms Let_def)

lemma parseBlock_srt:
  assumes "isStamp ts1" "isStamp ts2" "t \<noteq> []" "\<not> isWhite (last t)" "list_all isDigit n" "n \<noteq> []"
  shows "parseBlock (n @ [10] @ ts1 @ lit '' --> '' @ ts2 @ [10] @ t) subs
     = subs @ [\<lparr>id' = length subs + 1, startTime = timeToSeconds (Some ts1),
                endTime = timeToSeconds (Some ts2), text' = trim t\<rparr>]"
proof -
  let ?line = "ts1 @ lit '' --> '' @ ts2"
  let ?block = "n @ [10] @ ?line @ [10] @ t"
  note tl = isStamp_timeline[OF assms(1,2)]
  note dn = digits_facts[OF assms(5)]
  have "\<not> isWhite (hd ?block)" using assms(6) dn(4) by (cases n) simp_all
  moreover have "\<not> isWhite (last ?block)" using assms(3,4) by simp
  ultimately have tr: "trim ?block = ?block" using trim_id[of ?block] by simp
  have lines: "splitOn 10 ?block = n # ?line # splitOn 10 t"
    using splitOn_append[OF dn(1), of "?line @ [10] @ t"] splitOn_append[OF tl(1), of t]
    by simp
  obtain caps where caps: "regexExec timeLineRegex ?line = Some caps" "caps 1 = ts1" "caps 2 = ts2"
    using tl(3) by blast
  have ne: "trim (join [10] (splitOn 10 t)) \<noteq> []"
    using trim_nonempty[OF assms(3,4)] by (simp add: join_splitOn)
  have l2: "splitOn 10 (trim ?block) = n # ?line # splitOn 10 t" unfolding tr by (rule lines)
  show ?thesis
    using parseBlock_lines[OF l2 includes_no_dash[OF dn(2)] tl(2) caps(1) ne, of subs] caps(2,3)
    by (simp add: join_splitOn)
qed

lemma natToString_digits: "list_all isDigit (natToString n) \<and> natToString n \<noteq> []"
proof (induction n rule: natToString.induct)
  case (1 n)
  show ?case
  proof (cases "n < 10")
    case True
    then show ?thesis by (subst natToString.simps, subst natToString.simps) (simp add: isDigit_def)
  next
    case False
    have "n mod 10 < 10" by simp
    then have "isDigit (48 + n mod 10)" unfolding isDigit_def by linarith
    then show ?thesis using 1 False
      by (subst natToString.simps, subst natToString.simps) simp
  qed
qed

lemma hasBlankLine_append: "10 \<notin> set a \<Longrightarrow> hasBlankLine (a @ s) = hasBlankLine s"
  by (induction a) simp_all

lemma okText_block:
  assumes "isStamp ts1" "isStamp ts2" "okText t" "list_all isDigit n" "n \<noteq> []"
  defines "b \<equiv> n @ [10] @ ts1 @ lit '' --> '' @ ts2 @ [10] @ t"
  shows "b \<noteq> []" "\<not> isWhite (hd b)" "\<not> isWhite (last b)" "\<not> hasBlankLine b" "13 \<notin> set b"
proof -
  note tl = isStamp_timeline[OF assms(1,2)]
  note dn = digits_facts[OF assms(4)]
  have ok: "t \<noteq> []" "\<not> isWhite (last t)" "13 \<notin> set t" "\<not> hasBlankLine (10 # t)"
    using assms(3) by (simp_all add: okText_def)
  show "b \<noteq> []" using assms(5) by (simp add: b_def)
  show "\<not> isWhite (hd b)" using assms(5) dn(4) by (cases n) (simp_all add: b_def)
  show "\<not> isWhite (last b)" using ok(1,2) by (simp add: b_def)
  show "13 \<notin> set b" using dn(3) tl(4) ok(3) by (simp add: b_def)
  let ?line = "ts1 @ lit '' --> '' @ ts2"
  have tw: "takeWhile isWhite (?line @ 10 # t) = []"
    using tl(5,6) by (cases ts1) simp_all
  have "hasBlankLine b = hasBlankLine (10 # ?line @ 10 # t)"
    using hasBlankLine_append[OF dn(1), of "10 # ?line @ 10 # t"] by (simp add: b_def)
  also have "\<dots> = hasBlankLine (?line @ 10 # t)"
    using tw by (simp del: append_assoc)
  also have "\<dots> = hasBlankLine (10 # t)"
    using hasBlankLine_append[OF tl(1), of "10 # t"] by simp
  finally show "\<not> hasBlankLine b" using ok(4) by simp
qed

lemma crlfToLf_id: "13 \<notin> set s \<Longrightarrow> crlfToLf s = s"
  by (induction s rule: crlfToLf.induct) auto

lemma crToLf_id: "13 \<notin> set s \<Longrightarrow> crToLf s = s"
  by (induction s) (auto simp: crToLf_def)

lemma set_join: "set (join sep bs) \<subseteq> set sep \<union> \<Union> (set ` set bs)"
  by (induction sep bs rule: join.induct) auto

lemma parseSRT_empty: "parseSRT [] = []"
  by (simp add: parseSRT_def Let_def crToLf_def regexSplit_def parseBlock_def trim_def lit_def)

lemma srtBlock_shape:
  "srtBlock i c = natToString (i + 1) @ [10] @ stamp1 c @ lit '' --> '' @ stamp2 c @ [10] @ text' c"
  by (simp add: srtBlock_def)

lemma fold_parseBlock:
  assumes "\<forall>c\<in>set cs. isStamp (stamp1 c) \<and> isStamp (stamp2 c) \<and> okText (text' c)"
  shows "fold parseBlock (map (\<lambda>(i, c). srtBlock i c) (enumerate k cs)) acc
       = acc @ map (\<lambda>(j, c). reparsedRaw (length acc + j) c) (enumerate 0 cs)"
  using assms
proof (induction cs arbitrary: k acc)
  case Nil
  then show ?case by simp
next
  case (Cons c cs)
  have g: "isStamp (stamp1 c)" "isStamp (stamp2 c)" "okText (text' c)"
    using Cons.prems by simp_all
  have ok: "text' c \<noteq> []" "\<not> isWhite (last (text' c))" using g(3) by (simp_all add: okText_def)
  have step: "parseBlock (srtBlock k c) acc = acc @ [reparsedRaw (length acc) c]"
    unfolding srtBlock_shape
    using parseBlock_srt[OF g(1,2) ok natToString_digits[of "k + 1", THEN conjunct1]
        natToString_digits[of "k + 1", THEN conjunct2], of acc]
    by (simp add: reparsedRaw_def)
  have rest: "\<forall>c\<in>set cs. isStamp (stamp1 c) \<and> isStamp (stamp2 c) \<and> okText (text' c)"
    using Cons.prems by simp
  have shift: "map (\<lambda>(j, c). reparsedRaw (length acc + j) c) (enumerate (Suc 0) cs)
      = map (\<lambda>(j, c). reparsedRaw (length (acc @ [reparsedRaw (length acc) c]) + j) c) (enumerate 0 cs)"
    by (simp add: enumerate_Suc_eq[of 0] split_def)
  show ?case
    using Cons.IH[OF rest, of "Suc k" "acc @ [reparsedRaw (length acc) c]"] step shift
    by simp
qed

lemma srt_round_trip_raw:
  assumes "\<forall>c\<in>set cues. isStamp (stamp1 c) \<and> isStamp (stamp2 c) \<and> okText (text' c)"
  shows "parseSRT (generateSRT cues) = map (\<lambda>(i, c). reparsedRaw i c) (enumerate 0 cues)"
proof (cases "cues = []")
  case True
  then show ?thesis by (simp add: generateSRT_def parseSRT_empty)
next
  case False
  let ?bs = "map (\<lambda>(i, c). srtBlock i c) (enumerate 0 cues)"
  have ne: "?bs \<noteq> []" using False by (cases cues) simp_all
  have good: "b \<noteq> [] \<and> \<not> isWhite (hd b) \<and> \<not> isWhite (last b) \<and> \<not> hasBlankLine b \<and> 13 \<notin> set b"
    if mem: "b \<in> set ?bs" for b
  proof -
    obtain i c where p: "(i, c) \<in> set (enumerate 0 cues)" "b = srtBlock i c"
      using mem by auto
    have "c \<in> set cues" using p(1) by (auto simp: in_set_enumerate_eq)
    then have ic: "c \<in> set cues" "b = srtBlock i c" using p(2) by simp_all
    have g: "isStamp (stamp1 c)" "isStamp (stamp2 c)" "okText (text' c)"
      using assms ic(1) by simp_all
    show ?thesis
      unfolding ic(2) srtBlock_shape
      using okText_block[OF g natToString_digits[of "i + 1", THEN conjunct1]
          natToString_digits[of "i + 1", THEN conjunct2]]
      by blast
  qed
  have "13 \<notin> set (join [10, 10] ?bs)"
  proof
    assume "13 \<in> set (join [10, 10] ?bs)"
    then have "13 \<in> set [10, 10 :: nat] \<union> \<Union> (set ` set ?bs)"
      using set_join[of "[10, 10]" ?bs] by blast
    then obtain b where "b \<in> set ?bs" "13 \<in> set b" by auto
    then show False using good by blast
  qed
  then have norm: "crToLf (crlfToLf (generateSRT cues)) = generateSRT cues"
    by (simp add: generateSRT_def crlfToLf_id crToLf_id)
  have "\<forall>b\<in>set ?bs. b \<noteq> [] \<and> \<not> isWhite (hd b) \<and> \<not> isWhite (last b) \<and> \<not> hasBlankLine b"
    using good by blast
  then have split: "regexSplit blockSeparator (generateSRT cues) = ?bs"
    unfolding generateSRT_def by (rule split_join[OF ne])
  show ?thesis
    unfolding parseSRT_def Let_def norm split
    using fold_parseBlock[OF assms, of 0 "[]"] by simp
qed

lemma numericValue_digits:
  assumes "ds \<noteq> []" "list_all isDigit ds"
  shows "numericValue ds = Fin (real (digitsValue ds))"
proof -
  obtain c r where cr: "ds = c # r" using assms(1) by (cases ds) auto
  have dc: "isDigit c" and dr: "list_all isDigit r" using assms(2) cr by simp_all
  have nw: "\<forall>x\<in>set ds. \<not> isWhite x" using assms(2) digit_facts(13) by (auto simp: list_all_iff)
  have "\<not> isWhite (hd ds)" "\<not> isWhite (last ds)" using nw assms(1) by simp_all
  then have tr: "trim ds = ds" using trim_id assms(1) by blast
  have hdr: "r \<noteq> [] \<Longrightarrow> isDigit (hd r)" using dr by (cases r) simp_all
  have nox: "\<not> (r \<noteq> [] \<and> (hd r = 120 \<or> hd r = 88 \<or> hd r = 111 \<or> hd r = 79 \<or> hd r = 98 \<or> hd r = 66))"
    using hdr by (auto simp: isDigit_def)
  have tw: "takeWhile isDigit ds = ds" "dropWhile isDigit ds = []"
    using assms(2) by (simp_all add: list_all_iff)
  have ninf: "ds \<noteq> lit ''Infinity''" using dc cr by (auto simp: lit_def isDigit_def)
  have ud: "unsignedDecimal ds = Fin (real (digitsValue ds))"
    using ninf assms(1) by (simp add: unsignedDecimal_def Let_def tw exponentPart_def pow10_def digitsValue_def)
  show ?thesis
    using tr cr ud nox digit_facts(4,9)[OF dc] unfolding numericValue_def Let_def
    by (auto simp del: list.sel)
qed

lemma Number_digits:
  assumes "ds \<noteq> []" "list_all isDigit ds" "digitsValue ds < 2 ^ 53"
  shows "Number ds = Fin (real (digitsValue ds))"
  by (simp add: Number_def numericValue_digits[OF assms(1,2)] fl_of_nat[OF assms(3)])

lemma digitsValue_2: "digitsValue [a, b] = (a - 48) * 10 + (b - 48)"
  by (simp add: digitsValue_def)

lemma digitsValue_3: "digitsValue [a, b, c] = ((a - 48) * 10 + (b - 48)) * 10 + (c - 48)"
  by (simp add: digitsValue_def)

lemma digit_less: "isDigit a \<Longrightarrow> a - 48 < 10"
  by (auto simp: isDigit_def)

lemma dbl_add_fl_not_NaN: "dbl_add (Fin a) (fl b) \<noteq> NaN"
  using fl_not_NaN[of b] by (cases "fl b") (simp_all add: dbl_add_def)

lemma timeToSeconds_stamp:
  assumes "isDigit a1" "isDigit a2" "isDigit b1" "isDigit b2" "isDigit c1" "isDigit c2"
    "isDigit e1" "isDigit e2" "isDigit e3"
  shows "timeToSeconds (Some [a1, a2, 58, b1, b2, 58, c1, c2, 44, e1, e2, e3])
      = dbl_add (Fin (real (digitsValue [a1, a2] * 3600 + digitsValue [b1, b2] * 60
                            + digitsValue [c1, c2])))
          (dbl_div (Fin (real (digitsValue [e1, e2, e3]))) (Fin 1000))"
proof -
  let ?s = "[a1, a2, 58, b1, b2, 58, c1, c2, 44, e1, e2, e3]"
  let ?H = "digitsValue [a1, a2]" and ?M = "digitsValue [b1, b2]" and ?S = "digitsValue [c1, c2]"
  let ?X = "digitsValue [e1, e2, e3]"
  note df = assms[THEN digit_facts(1)] assms[THEN digit_facts(2)] assms[THEN digit_facts(3)]
  note dl = assms[THEN digit_less]
  have bnd: "?H < 100" "?M < 100" "?S < 100"
    unfolding digitsValue_2 using dl by linarith+
  have "(e1 - 48) * 10 + (e2 - 48) \<le> 99" using dl by linarith
  then have "((e1 - 48) * 10 + (e2 - 48)) * 10 \<le> 990" by simp
  then have bx: "?X < 1000" unfolding digitsValue_3 using dl(9) by linarith
  have rep: "replaceFirst 46 44 ?s = ?s" using df by simp
  have sp: "splitOn 44 ?s = [[a1, a2, 58, b1, b2, 58, c1, c2], [e1, e2, e3]]" using df by simp
  have tp: "timeParts ?s = [[a1, a2], [b1, b2], [c1, c2]]"
    unfolding timeParts_def Let_def rep sp using df by simp
  have mp: "millisPart ?s = [e1, e2, e3]"
    unfolding millisPart_def Let_def rep sp by simp
  have small: "k < 1000 \<Longrightarrow> k < 2 ^ 53" for k :: nat by simp
  have n: "Number [a1, a2] = Fin (real ?H)" "Number [b1, b2] = Fin (real ?M)"
    "Number [c1, c2] = Fin (real ?S)" "Number [e1, e2, e3] = Fin (real ?X)"
    using assms bnd bx by (simp_all add: Number_digits small)
  have b2: "?H * 3600 < 2 ^ 53" "?M * 60 < 2 ^ 53" "?H * 3600 + ?M * 60 < 2 ^ 53"
    "?H * 3600 + ?M * 60 + ?S < 2 ^ 53"
    using bnd by simp_all
  have m1: "dbl_mul (Fin (real ?H)) (Fin 3600) = Fin (real (?H * 3600))"
    using fl_of_nat[OF b2(1)] by (simp add: dbl_mul_Fin)
  have m2: "dbl_mul (Fin (real ?M)) (Fin 60) = Fin (real (?M * 60))"
    using fl_of_nat[OF b2(2)] by (simp add: dbl_mul_Fin)
  have s1: "dbl_add (Fin (real (?H * 3600))) (Fin (real (?M * 60))) = Fin (real (?H * 3600 + ?M * 60))"
    using fl_of_nat[OF b2(3)] by (simp add: dbl_add_Fin)
  have s2: "dbl_add (Fin (real (?H * 3600 + ?M * 60))) (Fin (real ?S))
      = Fin (real (?H * 3600 + ?M * 60 + ?S))"
    using fl_of_nat[OF b2(4)] by (simp add: dbl_add_Fin)
  have ms: "(if truthy (Fin (real ?X)) then Fin (real ?X) else Fin 0) = Fin (real ?X)"
    by (simp add: truthy_def)
  have nn: "dbl_add (Fin (real (?H * 3600 + ?M * 60 + ?S))) (dbl_div (Fin (real ?X)) (Fin 1000)) \<noteq> NaN"
    by (simp add: dbl_div_Fin dbl_add_fl_not_NaN)
  show ?thesis
    using nn
    by (simp add: timeToSeconds_def Let_def tp mp n m1 m2 s1 s2 ms isNaN_def
          del: of_nat_add of_nat_mult)
qed

declare natToString.simps [simp del]

lemma natToString_small: "n < 10 \<Longrightarrow> natToString n = [48 + n]"
  by (subst natToString.simps) simp

lemma natToString_two: "10 \<le> n \<Longrightarrow> n < 100 \<Longrightarrow> natToString n = [48 + n div 10, 48 + n mod 10]"
  by (subst natToString.simps) (simp add: natToString_small)

lemma natToString_three:
  "100 \<le> n \<Longrightarrow> n < 1000 \<Longrightarrow> natToString n = [48 + n div 100, 48 + n div 10 mod 10, 48 + n mod 10]"
proof -
  assume a: "100 \<le> n" "n < 1000"
  have "10 \<le> n div 10" "n div 10 < 100" using a by simp_all
  then have "natToString (n div 10) = [48 + n div 10 div 10, 48 + n div 10 mod 10]"
    by (rule natToString_two)
  moreover have "n div 10 div 10 = n div 100" by (simp add: div_mult2_eq[symmetric])
  ultimately show ?thesis using a by (subst natToString.simps) simp
qed

lemma numToString_nat: "numToString (Fin (real k)) = natToString k"
  by (simp add: numToString_def)

lemma pad2:
  assumes "k < 100"
  shows "pad (Fin (real k)) 2 = [48 + k div 10, 48 + k mod 10]"
proof (cases "k < 10")
  case True
  then show ?thesis by (simp add: pad_def numToString_nat natToString_small lit_def)
next
  case False
  then show ?thesis using assms by (simp add: pad_def numToString_nat natToString_two lit_def)
qed

lemma pad3:
  assumes "k < 1000"
  shows "pad (Fin (real k)) 3 = [48 + k div 100, 48 + k div 10 mod 10, 48 + k mod 10]"
proof -
  consider "k < 10" | "10 \<le> k" "k < 100" | "100 \<le> k" using assms by linarith
  then show ?thesis
  proof cases
    case 1
    then show ?thesis by (simp add: pad_def numToString_nat natToString_small lit_def)
  next
    case 2
    then show ?thesis by (simp add: pad_def numToString_nat natToString_two lit_def)
  next
    case 3
    then show ?thesis using assms by (simp add: pad_def numToString_nat natToString_three lit_def)
  qed
qed

lemma isDigit_48: "a < 10 \<Longrightarrow> isDigit (48 + a)"
  by (simp add: isDigit_def)


lemma double_nat_repr:
  assumes "isDouble t" "0 \<le> t" "t < 2 ^ 53"
  shows "\<exists>N. t = real N * 2 powi (binade t - 52) \<and> N < 2 ^ 53 \<and> binade t - 52 \<le> 0"
proof -
  obtain m where m: "t = of_int m * ulp t" "\<bar>m\<bar> < 2 ^ 53"
    using double_repr[of t] assms(1) by (auto simp: isDouble_def)
  have "0 \<le> real_of_int m * ulp t" using m(1) assms(2) by simp
  then have "0 \<le> real_of_int m" using ulp_pos[of t] by (simp add: zero_le_mult_iff)
  then have m0: "0 \<le> m" by simp
  have "t = real (nat m) * 2 powi (binade t - 52)" using m(1) m0 by (simp add: ulp_def)
  moreover have "nat m < 2 ^ 53" using m(2) m0 by (simp add: nat_less_iff)
  moreover have "binade t \<le> 52" using assms(2,3) by (intro binade_le_52) simp
  ultimately show ?thesis by auto
qed

lemma secondsToTime_parts:
  assumes "isDouble t" "0 \<le> t" "t < 360000"
  defines "T \<equiv> nat \<lfloor>t\<rfloor>"
  shows "Math_floor (dbl_div (Fin t) (Fin 3600)) = Fin (real (T div 3600))"
    and "Math_floor (dbl_div (js_rem (Fin t) (Fin 3600)) (Fin 60)) = Fin (real (T mod 3600 div 60))"
    and "Math_floor (js_rem (Fin t) (Fin 60)) = Fin (real (T mod 60))"
    and "Math_round (dbl_mul (js_rem (Fin t) (Fin 1)) (Fin 1000)) = srtMillis t"
proof -
  have T: "\<lfloor>t\<rfloor> = int T" using assms by (simp add: T_def)
  have tr: "js_trunc (t / real_of_int k) = \<lfloor>t\<rfloor> div k" if "0 < k" for k
  proof -
    have "0 \<le> t / real_of_int k" using assms(2) that by simp
    then show ?thesis using that by (simp add: js_trunc_def floor_divide_real_eq_div)
  qed
  have idiv: "int T div 3600 = int (T div 3600)" "int T div 60 = int (T div 60)"
    by (simp_all add: zdiv_int)
  have f3600: "\<lfloor>t / 3600\<rfloor> = int (T div 3600)"
    using floor_divide_real_eq_div[of 3600 t] T by (simp add: zdiv_int)
  have t53: "t < 2 ^ 53" using assms(3) by simp
  obtain N where N: "t = real N * 2 powi (binade t - 52)" "N < 2 ^ 53" "binade t - 52 \<le> 0"
    using double_nat_repr[OF assms(1,2) t53] by blast
  define k where "k = binade t - 52"
  define p where "p = nat (- k)"
  have pk: "(2::real) powi k = 1 / 2 ^ p" using N(3) by (simp add: k_def p_def power_int_def field_simps)
  have tN: "t = real N / 2 ^ p" using N(1) pk by (simp add: k_def)
  have "T < 360000" using assms(3) T by linarith
  then have "T < 100 * 3600" by simp
  then have H: "T div 3600 < 100" by (simp only: less_mult_imp_div_less)
  have c1: "int 3600 * (\<lfloor>t / real 3600\<rfloor> + 1) \<le> 2 ^ 53"
    using f3600 H by simp
  obtain y where y: "fl (t / real 3600) = Fin y" "\<lfloor>y\<rfloor> = \<lfloor>t / real 3600\<rfloor>"
    using fl_div_floor[OF N(1,2) _ c1] by auto
  show "Math_floor (dbl_div (Fin t) (Fin 3600)) = Fin (real (T div 3600))"
    using y f3600 by (simp add: dbl_div_Fin)
  define a where "a = t - 3600 * real (T div 3600)"
  have r3600: "js_rem (Fin t) (Fin 3600) = Fin a"
    using tr[of 3600] T by (simp add: idiv a_def)
  have fa: "\<lfloor>a\<rfloor> = int (T mod 3600)"
  proof -
    have "\<lfloor>a\<rfloor> = \<lfloor>t\<rfloor> - 3600 * int (T div 3600)"
      unfolding a_def using floor_diff_of_int[of t "3600 * int (T div 3600)"] by simp
    also have "\<dots> = int (T mod 3600)"
      unfolding T by (simp add: minus_mult_div_eq_mod zmod_int zdiv_int)
    finally show ?thesis .
  qed
  have a0: "0 \<le> a"
  proof -
    have "0 \<le> \<lfloor>a\<rfloor>" using fa by simp
    then show ?thesis by (simp only: zero_le_floor)
  qed
  have at: "a \<le> t" unfolding a_def by simp
  have a3600: "a < 3600"
  proof -
    have "\<lfloor>a\<rfloor> < 3600" using fa by simp
    then show ?thesis by (simp add: floor_less_iff)
  qed
  define N' where "N' = nat (int N - 3600 * int (T div 3600) * 2 ^ p)"
  have aN: "a = (real N - 3600 * real (T div 3600) * 2 ^ p) / 2 ^ p"
    unfolding a_def tN by (simp add: field_simps)
  have "0 \<le> a * 2 ^ p" using a0 by simp
  moreover have "a * 2 ^ p = real N - 3600 * real (T div 3600) * 2 ^ p" unfolding aN by simp
  ultimately have "0 \<le> real N - 3600 * real (T div 3600) * 2 ^ p" by (simp only:)
  then have "0 \<le> real_of_int (int N - 3600 * int (T div 3600) * 2 ^ p)" by simp
  then have nn: "0 \<le> int N - 3600 * int (T div 3600) * 2 ^ p" by (simp only: of_int_0_le_iff)
  then have rN': "real N' = real N - 3600 * real (T div 3600) * 2 ^ p"
    unfolding N'_def by (simp add: of_nat_nat)
  have aN': "a = real N' * 2 powi k" unfolding pk rN' using aN by simp
  have "N' \<le> N" unfolding N'_def by (simp add: nat_le_iff)
  then have N'53: "N' < 2 ^ 53" using N(2) by simp
  have fm: "\<lfloor>a / 60\<rfloor> = int (T mod 3600 div 60)"
    using floor_divide_real_eq_div[of 60 a] fa by (simp add: zdiv_int)
  have "T mod 3600 < 60 * 60" by simp
  then have M: "T mod 3600 div 60 < 60" by (simp only: less_mult_imp_div_less)
  have c2: "int 60 * (\<lfloor>a / real 60\<rfloor> + 1) \<le> 2 ^ 53"
    using fm M by simp
  obtain z where z: "fl (a / real 60) = Fin z" "\<lfloor>z\<rfloor> = \<lfloor>a / real 60\<rfloor>"
    using fl_div_floor[OF aN' N'53 _ c2] by auto
  show "Math_floor (dbl_div (js_rem (Fin t) (Fin 3600)) (Fin 60)) = Fin (real (T mod 3600 div 60))"
    unfolding r3600 using z fm by (simp add: dbl_div_Fin)
  have r60: "js_rem (Fin t) (Fin 60) = Fin (t - 60 * real (T div 60))"
    using tr[of 60] T by (simp add: idiv)
  have "\<lfloor>t - 60 * real (T div 60)\<rfloor> = \<lfloor>t\<rfloor> - 60 * int (T div 60)"
    using floor_diff_of_int[of t "60 * int (T div 60)"] by simp
  also have "\<dots> = int (T mod 60)"
    unfolding T by (simp add: minus_mult_div_eq_mod zmod_int zdiv_int)
  finally show "Math_floor (js_rem (Fin t) (Fin 60)) = Fin (real (T mod 60))"
    unfolding r60 by simp
  have r1: "js_rem (Fin t) (Fin 1) = Fin (t - of_int \<lfloor>t\<rfloor>)"
    using tr[of 1] by simp
  show "Math_round (dbl_mul (js_rem (Fin t) (Fin 1)) (Fin 1000)) = srtMillis t"
    unfolding r1 srtMillis_def ..
qed

lemma srtMillis_value:
  "\<exists>X. srtMillis t = Fin (real X) \<and> X \<le> 1000
       \<and> \<bar>real X - (t - of_int \<lfloor>t\<rfloor>) * 1000\<bar> \<le> 1 / 2 + 1 / 17592186044416"
proof -
  define x where "x = (t - of_int \<lfloor>t\<rfloor>) * 1000"
  have f: "0 \<le> t - of_int \<lfloor>t\<rfloor>" "t - of_int \<lfloor>t\<rfloor> < 1" by linarith+
  have x0: "0 \<le> x" and x1: "x < 1000" using f by (simp_all add: x_def)
  have "\<bar>x\<bar> < 2 ^ 53" using x0 x1 by simp
  then obtain y where y: "fl x = Fin y" "\<forall>j. of_int j \<le> x \<longrightarrow> of_int j \<le> y"
    "\<forall>j. x \<le> of_int j \<longrightarrow> y \<le> of_int j"
    using fl_int_bounds[of x] by blast
  have "of_int 0 \<le> x" using x0 by simp
  then have "of_int 0 \<le> y" using y(2) by blast
  then have y0: "0 \<le> y" by simp
  have "x \<le> of_int 1000" using x1 by simp
  then have "y \<le> of_int 1000" using y(3) by blast
  then have y1: "y \<le> 1000" by simp
  have "\<bar>x\<bar> < 2 powi (9 + 1)" using x0 x1 by simp
  then obtain y' where y': "fl x = Fin y'" "\<bar>y' - x\<bar> \<le> 2 powi (9 - 53)"
    using fl_err[of x 9] by auto
  have "(2::real) powi (9 - 53) = 1 / 17592186044416" by (simp add: power_int_minus_divide)
  then have e: "\<bar>y - x\<bar> \<le> 1 / 17592186044416" using y(1) y' by simp
  define X where "X = nat \<lfloor>y + 1 / 2\<rfloor>"
  have fl0: "0 \<le> \<lfloor>y + 1 / 2\<rfloor>" using y0 by simp
  have "y + 1 / 2 < 1001" using y1 by simp
  then have "\<lfloor>y + 1 / 2\<rfloor> < 1001" by (simp add: floor_less_iff)
  then have X1: "X \<le> 1000" unfolding X_def using fl0 by linarith
  have rX: "real X = of_int \<lfloor>y + 1 / 2\<rfloor>" unfolding X_def using fl0 by simp
  have "of_int \<lfloor>y + 1 / 2\<rfloor> \<le> y + 1 / 2" "y + 1 / 2 < of_int \<lfloor>y + 1 / 2\<rfloor> + 1" by linarith+
  then have "\<bar>real X - y\<bar> \<le> 1 / 2" unfolding rX by linarith
  then have d: "\<bar>real X - x\<bar> \<le> 1 / 2 + 1 / 17592186044416" using e by linarith
  have "dbl_mul (Fin (t - of_int \<lfloor>t\<rfloor>)) (Fin 1000) = Fin y"
    unfolding dbl_mul_Fin using y(1) by (simp only: x_def)
  then have "srtMillis t = Math_round (Fin y)" by (simp only: srtMillis_def)
  then have "srtMillis t = Fin (real X)" by (simp add: rX)
  then show ?thesis using X1 d unfolding x_def by blast
qed

lemma secondsToTime_digits:
  assumes "isDouble t" "0 \<le> t" "t < 360000" "srtMillis t = Fin (real X)" "X \<le> 1000"
  defines "T \<equiv> nat \<lfloor>t\<rfloor>"
  defines "H \<equiv> T div 3600" and "M \<equiv> T mod 3600 div 60" and "S \<equiv> T mod 60"
  shows "secondsToTime (Fin t) (lit '','')
      = [48 + H div 10, 48 + H mod 10, 58, 48 + M div 10, 48 + M mod 10, 58,
         48 + S div 10, 48 + S mod 10, 44] @ pad (Fin (real X)) 3"
proof -
  have "T < 360000" using assms(2,3) unfolding T_def by linarith
  then have "T < 100 * 3600" by simp
  then have "H < 100" unfolding H_def by (simp only: less_mult_imp_div_less)
  moreover have "M < 100" "S < 100" unfolding M_def S_def by (simp_all add: less_mult_imp_div_less)
  ultimately show ?thesis
    unfolding secondsToTime_def Let_def
    using secondsToTime_parts[OF assms(1,2,3)] assms(4)
    by (simp add: T_def[symmetric] H_def[symmetric] M_def[symmetric] S_def[symmetric] pad2 lit_def)
qed

lemma two_digits: "k < 100 \<Longrightarrow> k div 10 < 10 \<and> k mod 10 < 10 \<and> k div 10 * 10 + k mod 10 = (k::nat)"
  by (simp add: less_mult_imp_div_less)

lemma three_digits:
  "k < 1000 \<Longrightarrow> k div 100 < 10 \<and> k div 10 mod 10 < 10 \<and> k mod 10 < 10
     \<and> (k div 100 * 10 + k div 10 mod 10) * 10 + k mod 10 = (k::nat)"
proof -
  assume "k < 1000"
  then have a: "k div 100 < 10" by (simp add: less_mult_imp_div_less)
  have "k div 100 = k div 10 div 10" by (simp add: div_mult2_eq[symmetric])
  then have "k div 100 * 10 + k div 10 mod 10 = k div 10" by simp
  then show ?thesis using a by simp
qed

lemma hms_sum: "(T::nat) div 3600 * 3600 + T mod 3600 div 60 * 60 + T mod 60 = T"
proof -
  have "T mod 3600 mod 60 = T mod 60" by (simp add: mod_mod_cancel)
  then have "T mod 3600 div 60 * 60 + T mod 60 = T mod 3600"
    by (metis div_mult_mod_eq)
  then show ?thesis by (metis add.assoc div_mult_mod_eq)
qed

lemma fl_samples:
  "fl 100 = Fin 100" "fl 1000 = Fin 1000" "fl 3662 = Fin 3662"
  "fl (3 / 2) = Fin (3 / 2)" "fl (14645 / 4) = Fin (14645 / 4)"
  "fl (8191 / 4096) = Fin (8191 / 4096)" "fl (511875 / 512) = Fin (511875 / 512)"
  using fl_of_int[of 100] fl_of_int[of 1000] fl_of_int[of 3662]
    fl_dyadic[of 3 1] fl_dyadic[of 14645 2] fl_dyadic[of 8191 12] fl_dyadic[of 511875 9]
  by simp_all

lemma secondsToTime_stamp:
  assumes "isDouble t" "0 \<le> t" "t < 360000" "srtMillis t = Fin (real X)" "X < 1000"
  shows "isStamp (secondsToTime (Fin t) (lit '',''))"
    and "timeToSeconds (Some (secondsToTime (Fin t) (lit '','')))
       = dbl_add (Fin (real (nat \<lfloor>t\<rfloor>))) (dbl_div (Fin (real X)) (Fin 1000))"
proof -
  let ?T = "nat \<lfloor>t\<rfloor>"
  let ?H = "?T div 3600" and ?M = "?T mod 3600 div 60" and ?S = "?T mod 60"
  have "?T < 360000" using assms(2,3) by linarith
  then have "?T < 100 * 3600" by simp
  then have H: "?H < 100" by (simp only: less_mult_imp_div_less)
  have b: "?M < 100" "?S < 100" by (simp_all add: less_mult_imp_div_less)
  have X: "X \<le> 1000" using assms(5) by simp
  have d: "secondsToTime (Fin t) (lit '','')
      = [48 + ?H div 10, 48 + ?H mod 10, 58, 48 + ?M div 10, 48 + ?M mod 10, 58,
         48 + ?S div 10, 48 + ?S mod 10, 44, 48 + X div 100, 48 + X div 10 mod 10, 48 + X mod 10]"
    using secondsToTime_digits[OF assms(1,2,3,4) X] pad3[OF assms(5)] by simp
  note h = two_digits[OF H] and m = two_digits[OF b(1)] and s = two_digits[OF b(2)]
    and x = three_digits[OF assms(5)]
  have dg: "isDigit (48 + ?H div 10)" "isDigit (48 + ?H mod 10)"
    "isDigit (48 + ?M div 10)" "isDigit (48 + ?M mod 10)"
    "isDigit (48 + ?S div 10)" "isDigit (48 + ?S mod 10)"
    "isDigit (48 + X div 100)" "isDigit (48 + X div 10 mod 10)" "isDigit (48 + X mod 10)"
    using h m s x by (simp_all add: isDigit_48)
  show "isStamp (secondsToTime (Fin t) (lit '',''))"
    unfolding d isStamp_def using dg by simp
  have v: "digitsValue [48 + ?H div 10, 48 + ?H mod 10] = ?H"
    "digitsValue [48 + ?M div 10, 48 + ?M mod 10] = ?M"
    "digitsValue [48 + ?S div 10, 48 + ?S mod 10] = ?S"
    "digitsValue [48 + X div 100, 48 + X div 10 mod 10, 48 + X mod 10] = X"
    unfolding digitsValue_2 digitsValue_3 using h m s x by simp_all
  have sum: "?H * 3600 + ?M * 60 + ?S = ?T" by (rule hms_sum)
  show "timeToSeconds (Some (secondsToTime (Fin t) (lit '','')))
       = dbl_add (Fin (real ?T)) (dbl_div (Fin (real X)) (Fin 1000))"
    unfolding d timeToSeconds_stamp[OF dg] v sum ..
qed

lemma srtTime_close:
  assumes "0 \<le> t" "t < 360000" "srtMillis t = Fin (real X)" "X < 1000"
    "\<bar>real X - (t - of_int \<lfloor>t\<rfloor>) * 1000\<bar> \<le> 1 / 2 + 1 / 17592186044416"
  shows "\<exists>r. srtTime t = Fin r \<and> \<bar>r - t\<bar> \<le> 1 / 2000 + 1 / 2 ^ 34"
proof -
  have x1: "\<bar>real X / 1000\<bar> < 2 powi (- 1 + 1)" using assms(4) by simp
  obtain z where z: "fl (real X / 1000) = Fin z" "\<bar>z - real X / 1000\<bar> \<le> 2 powi (- 1 - 53)"
    "\<bar>z\<bar> \<le> 2 powi (- 1 + 1)"
    using fl_err[OF x1] by auto
  have p54: "(2::real) powi (- 1 - 53) = 1 / 18014398509481984" by (simp add: power_int_minus_divide)
  have z1: "\<bar>z\<bar> \<le> 1" using z(3) by simp
  define w where "w = of_int \<lfloor>t\<rfloor> + z"
  have ft: "0 \<le> \<lfloor>t\<rfloor>" "\<lfloor>t\<rfloor> < 360000" using assms(1,2) by (simp_all add: floor_less_iff)
  have "\<bar>w\<bar> \<le> 360000" unfolding w_def using ft z1 by linarith
  then have w1: "\<bar>w\<bar> < 2 powi (18 + 1)" by simp
  obtain r where r: "fl w = Fin r" "\<bar>r - w\<bar> \<le> 2 powi (18 - 53)"
    using fl_err[OF w1] by auto
  have p35: "(2::real) powi (18 - 53) = 1 / 34359738368" by (simp add: power_int_minus_divide)
  have st: "srtTime t = Fin r"
    unfolding srtTime_def assms(3) using z(1) r(1) by (simp add: dbl_div_Fin dbl_add_Fin w_def)
  define f where "f = t - of_int \<lfloor>t\<rfloor>"
  have e1: "\<bar>real X - f * 1000\<bar> \<le> 1 / 2 + 1 / 17592186044416" using assms(5) by (simp add: f_def)
  have e2: "\<bar>z - real X / 1000\<bar> \<le> 1 / 18014398509481984" using z(2) p54 by simp
  have e3: "\<bar>r - w\<bar> \<le> 1 / 34359738368" using r(2) p35 by simp
  have "r - t = (r - w) + (z - real X / 1000) + (real X - f * 1000) / 1000"
    by (simp add: w_def f_def field_simps)
  moreover have "\<bar>(real X - f * 1000) / 1000\<bar> \<le> (1 / 2 + 1 / 17592186044416) / 1000"
    using e1 by simp
  ultimately have "\<bar>r - t\<bar> \<le> 1 / 34359738368 + 1 / 18014398509481984
      + (1 / 2 + 1 / 17592186044416) / 1000"
    using e2 e3 by linarith
  also have "\<dots> \<le> 1 / 2000 + 1 / 2 ^ 34" by simp
  finally show ?thesis using st by blast
qed

lemma goodTime_round_trip:
  assumes "goodTime x"
  shows "isStamp (secondsToTime x (lit '',''))"
    and "timeToSeconds (Some (secondsToTime x (lit '',''))) = srtRound x"
    and "closeTo x (srtRound x)"
proof -
  obtain t where t: "x = Fin t" "isDouble t" "0 \<le> t" "t < 360000" "js_lt (srtMillis t) (Fin 1000)"
    using assms by (cases x) (simp_all add: goodTime_def)
  obtain X where X: "srtMillis t = Fin (real X)" "X \<le> 1000"
    "\<bar>real X - (t - of_int \<lfloor>t\<rfloor>) * 1000\<bar> \<le> 1 / 2 + 1 / 17592186044416"
    using srtMillis_value[of t] by blast
  have X1: "X < 1000" using t(5) X(1) by simp
  show "isStamp (secondsToTime x (lit '',''))"
    unfolding t(1) by (rule secondsToTime_stamp(1)[OF t(2,3,4) X(1) X1])
  have "of_int \<lfloor>t\<rfloor> = real (nat \<lfloor>t\<rfloor>)" using t(3) by simp
  then have sr: "srtRound x = dbl_add (Fin (real (nat \<lfloor>t\<rfloor>))) (dbl_div (Fin (real X)) (Fin 1000))"
    by (simp add: t(1) srtRound_def srtTime_def X(1))
  show "timeToSeconds (Some (secondsToTime x (lit '',''))) = srtRound x"
    unfolding sr unfolding t(1) by (rule secondsToTime_stamp(2)[OF t(2,3,4) X(1) X1])
  obtain r where "srtTime t = Fin r" "\<bar>r - t\<bar> \<le> 1 / 2000 + 1 / 2 ^ 34"
    using srtTime_close[OF t(3,4) X(1) X1 X(3)] by blast
  then show "closeTo x (srtRound x)" by (simp add: t(1) srtRound_def closeTo_def)
qed

text \<open>
  Claim C9, as the code has it. For every list of cues whose texts are not empty, neither
  start nor end with white space, hold no carriage return and no blank line, and whose
  times are doubles that are non-negative, below one hundred hours and whose milliseconds
  do not come out as 1000, \<^verbatim>\<open>parseSRT(generateSRT(cues))\<close> has the same length and order,
  ids \<open>1, 2, \<dots>\<close>, every text unchanged, and every time replaced by the double
  \<^verbatim>\<open>timeToSeconds\<close> computes from the printed stamp (\<open>srtRound\<close>), which is at most half a
  millisecond and a rounding error below \<open>2\<^sup>-\<^sup>3\<^sup>4\<close> s from the original.
\<close>

theorem srt_round_trip:
  assumes "list_all goodCue cues"
  shows "parseSRT (generateSRT cues) = map (\<lambda>(index, sub). reparsed index sub) (enumerate 0 cues)
       \<and> length (parseSRT (generateSRT cues)) = length cues
       \<and> list_all (\<lambda>c. closeTo (startTime c) (srtRound (startTime c))
                       \<and> closeTo (endTime c) (srtRound (endTime c))) cues"
proof -
  have g: "goodTime (startTime c)" "goodTime (endTime c)" "goodText (text' c)" if "c \<in> set cues" for c
    using assms that by (simp_all add: list_all_iff goodCue_def)
  have ok: "okText (text' c)" and tr: "trim (text' c) = text' c" if "c \<in> set cues" for c
  proof -
    have gt: "text' c \<noteq> []" "\<not> isWhite (hd (text' c))" "\<not> isWhite (last (text' c))"
      "13 \<notin> set (text' c)" "\<not> hasBlankLine (text' c)"
      using g(3)[OF that] by (simp_all add: goodText_def)
    have "takeWhile isWhite (text' c) = []" using gt(1,2) by (cases "text' c") simp_all
    then show "okText (text' c)" using gt by (simp add: okText_def)
    show "trim (text' c) = text' c" using gt(1,2,3) by (rule trim_id)
  qed
  have raw: "parseSRT (generateSRT cues) = map (\<lambda>(i, c). reparsedRaw i c) (enumerate 0 cues)"
    using g ok goodTime_round_trip(1) by (intro srt_round_trip_raw) blast
  have same: "reparsedRaw i c = reparsed i c" if "c \<in> set cues" for i c
    using goodTime_round_trip(2)[OF g(1)[OF that]] goodTime_round_trip(2)[OF g(2)[OF that]] tr[OF that]
    by (simp add: reparsedRaw_def reparsed_def)
  have "map (\<lambda>(i, c). reparsedRaw i c) (enumerate 0 cues) = map (\<lambda>(i, c). reparsed i c) (enumerate 0 cues)"
  proof (rule map_cong[OF refl])
    fix p assume "p \<in> set (enumerate 0 cues)"
    then have "fst p < length cues" "cues ! fst p = snd p" by (auto simp: in_set_enumerate_eq)
    then have "snd p \<in> set cues" by (metis nth_mem)
    then show "(case p of (i, c) \<Rightarrow> reparsedRaw i c) = (case p of (i, c) \<Rightarrow> reparsed i c)"
      using same by (cases p) simp
  qed
  then have eq: "parseSRT (generateSRT cues) = map (\<lambda>(index, sub). reparsed index sub) (enumerate 0 cues)"
    using raw by simp
  have cl: "list_all (\<lambda>c. closeTo (startTime c) (srtRound (startTime c))
                       \<and> closeTo (endTime c) (srtRound (endTime c))) cues"
    unfolding list_all_iff using g(1,2) goodTime_round_trip(3) by blast
  show ?thesis using eq cl by simp
qed

lemma isDouble_samples:
  "isDouble 1" "isDouble 2" "isDouble 3" "isDouble 3662"
  "isDouble (3 / 2)" "isDouble (14645 / 4)" "isDouble (8191 / 4096)"
  by (simp_all add: isDouble_def fl_small_ints fl_samples)

lemma srtMillis_samples:
  "srtMillis 1 = Fin (real 0)" "srtMillis 2 = Fin (real 0)" "srtMillis 3 = Fin (real 0)"
  "srtMillis 3662 = Fin (real 0)" "srtMillis (3 / 2) = Fin (real 500)"
  "srtMillis (14645 / 4) = Fin (real 250)" "srtMillis (8191 / 4096) = Fin (real 1000)"
  by (simp_all add: srtMillis_def dbl_mul_Fin fl_millis fl_samples)

lemma stamp_of_1: "secondsToTime (Fin 1) (lit '','') = lit ''00:00:01,000''"
  using secondsToTime_digits[OF isDouble_samples(1) _ _ srtMillis_samples(1)] pad3[of 0]
  by (simp add: lit_def)

lemma stamp_of_2: "secondsToTime (Fin 2) (lit '','') = lit ''00:00:02,000''"
  using secondsToTime_digits[OF isDouble_samples(2) _ _ srtMillis_samples(2)] pad3[of 0]
  by (simp add: lit_def)

lemma stamp_of_3: "secondsToTime (Fin 3) (lit '','') = lit ''00:00:03,000''"
  using secondsToTime_digits[OF isDouble_samples(3) _ _ srtMillis_samples(3)] pad3[of 0]
  by (simp add: lit_def)

lemma stamp_of_carry: "secondsToTime (Fin (8191 / 4096)) (lit '','') = lit ''00:00:01,000''"
proof -
  have f: "\<lfloor>8191 / 4096 :: real\<rfloor> = 1" by simp
  have "natToString 1000 = [49, 48, 48, 48]" by (simp add: natToString.simps)
  then have p: "pad (Fin (real 1000)) 3 = [48, 48, 48]"
    by (simp add: pad_def numToString_nat lit_def del: of_nat_numeral)
  show ?thesis
    using secondsToTime_digits[OF isDouble_samples(7) _ _ srtMillis_samples(7)] p
    by (simp add: f lit_def del: of_nat_numeral)
qed

lemma stamp_of_100h: "secondsToTime (Fin 360000) (lit '','') = lit ''00:00:00,000''"
proof -
  have "natToString 100 = [49, 48, 48]" by (simp add: natToString.simps)
  then have p: "pad (Fin 100) 2 = [48, 48]"
    by (simp add: pad_def numToString_def lit_def)
  have z: "pad (Fin 0) 2 = [48, 48]" "pad (Fin 0) 3 = [48, 48, 48]"
    using pad2[of 0] pad3[of 0] by simp_all
  show ?thesis
    unfolding secondsToTime_def Let_def
    by (simp add: dbl_div_Fin dbl_mul_Fin js_trunc_def fl_samples p z lit_def)
qed

lemma stamp_values:
  "isStamp (lit ''00:00:00,000'')" "isStamp (lit ''00:00:01,000'')"
  "isStamp (lit ''00:00:02,000'')" "isStamp (lit ''00:00:03,000'')"
  "timeToSeconds (Some (lit ''00:00:00,000'')) = Fin 0"
  "timeToSeconds (Some (lit ''00:00:01,000'')) = Fin 1"
  "timeToSeconds (Some (lit ''00:00:02,000'')) = Fin 2"
  "timeToSeconds (Some (lit ''00:00:03,000'')) = Fin 3"
proof -
  have d: "isDigit 48" "isDigit 49" "isDigit 50" "isDigit 51" by (simp_all add: isDigit_def)
  show "isStamp (lit ''00:00:00,000'')" "isStamp (lit ''00:00:01,000'')"
    "isStamp (lit ''00:00:02,000'')" "isStamp (lit ''00:00:03,000'')"
    using d by (simp_all add: isStamp_def lit_def)
  show "timeToSeconds (Some (lit ''00:00:00,000'')) = Fin 0"
    using timeToSeconds_stamp[of 48 48 48 48 48 48 48 48 48] d
    by (simp add: lit_def digitsValue_2 digitsValue_3 dbl_div_Fin dbl_add_Fin)
  show "timeToSeconds (Some (lit ''00:00:01,000'')) = Fin 1"
    using timeToSeconds_stamp[of 48 48 48 48 48 49 48 48 48] d
    by (simp add: lit_def digitsValue_2 digitsValue_3 dbl_div_Fin dbl_add_Fin fl_small_ints)
  show "timeToSeconds (Some (lit ''00:00:02,000'')) = Fin 2"
    using timeToSeconds_stamp[of 48 48 48 48 48 50 48 48 48] d
    by (simp add: lit_def digitsValue_2 digitsValue_3 dbl_div_Fin dbl_add_Fin fl_small_ints)
  show "timeToSeconds (Some (lit ''00:00:03,000'')) = Fin 3"
    using timeToSeconds_stamp[of 48 48 48 48 48 51 48 48 48] d
    by (simp add: lit_def digitsValue_2 digitsValue_3 dbl_div_Fin dbl_add_Fin fl_small_ints)
qed

lemma okText_samples: "okText (lit '' a'')" "okText (lit ''a'')" "trim (lit '' a'') = lit ''a''"
  "trim (lit ''a'') = lit ''a''"
  by (simp_all add: okText_def lit_def isWhite_def trim_def)

lemma okText_two_lines: "okText [97, 10, 98]" "trim [97, 10, 98] = [97, 10, 98]"
  by (simp_all add: okText_def isWhite_def trim_def)

lemma carriage_return_normalised:
  "crToLf (crlfToLf (generateSRT [\<lparr>id' = 1, startTime = Fin 1, endTime = Fin 2, text' = [97, 13, 98]\<rparr>]))
     = generateSRT [\<lparr>id' = 1, startTime = Fin 1, endTime = Fin 2, text' = [97, 10, 98]\<rparr>]"
  "crToLf (crlfToLf (generateSRT [\<lparr>id' = 1, startTime = Fin 1, endTime = Fin 2, text' = [97, 10, 98]\<rparr>]))
     = generateSRT [\<lparr>id' = 1, startTime = Fin 1, endTime = Fin 2, text' = [97, 10, 98]\<rparr>]"
  by (simp_all add: generateSRT_def srtBlock_def stamp_of_1[unfolded lit_def, simplified]
        stamp_of_2[unfolded lit_def, simplified] natToString_small lit_def crToLf_def)

text \<open>
  Claim C9 as stated fails on single cues it admits: a text with a leading space comes
  back trimmed; 1.999755859375 s (\<open>8191 / 4096\<close>) is printed as \<^verbatim>\<open>00:00:01,000\<close> (the
  milliseconds round to 1000 and \<^verbatim>\<open>pad\<close> keeps the last three digits) and comes back as
  1 s; 360000 s is printed with hours \<^verbatim>\<open>00\<close> and comes back as 0 s; a carriage return in
  a text comes back as a line feed.
\<close>

theorem srt_round_trip_counterexample:
  "parseSRT (generateSRT [\<lparr>id' = 1, startTime = Fin 1, endTime = Fin 2, text' = lit '' a''\<rparr>])
     = [\<lparr>id' = 1, startTime = Fin 1, endTime = Fin 2, text' = lit ''a''\<rparr>]
   \<and> lit ''a'' \<noteq> lit '' a''
   \<and> parseSRT (generateSRT [\<lparr>id' = 1, startTime = Fin (8191 / 4096), endTime = Fin 3, text' = lit ''a''\<rparr>])
     = [\<lparr>id' = 1, startTime = Fin 1, endTime = Fin 3, text' = lit ''a''\<rparr>]
   \<and> parseSRT (generateSRT [\<lparr>id' = 1, startTime = Fin 360000, endTime = Fin 360000, text' = lit ''a''\<rparr>])
     = [\<lparr>id' = 1, startTime = Fin 0, endTime = Fin 0, text' = lit ''a''\<rparr>]
   \<and> parseSRT (generateSRT [\<lparr>id' = 1, startTime = Fin 1, endTime = Fin 2, text' = [97, 13, 98]\<rparr>])
     = [\<lparr>id' = 1, startTime = Fin 1, endTime = Fin 2, text' = [97, 10, 98]\<rparr>]"
proof -
  have 1: "parseSRT (generateSRT [\<lparr>id' = 1, startTime = Fin 1, endTime = Fin 2, text' = lit '' a''\<rparr>])
     = [\<lparr>id' = 1, startTime = Fin 1, endTime = Fin 2, text' = lit ''a''\<rparr>]"
    by (subst srt_round_trip_raw)
       (simp_all add: stamp_of_1 stamp_of_2 stamp_values okText_samples reparsedRaw_def)
  have 2: "parseSRT (generateSRT [\<lparr>id' = 1, startTime = Fin (8191 / 4096), endTime = Fin 3, text' = lit ''a''\<rparr>])
     = [\<lparr>id' = 1, startTime = Fin 1, endTime = Fin 3, text' = lit ''a''\<rparr>]"
    by (subst srt_round_trip_raw)
       (simp_all add: stamp_of_carry stamp_of_3 stamp_values okText_samples reparsedRaw_def)
  have 3: "parseSRT (generateSRT [\<lparr>id' = 1, startTime = Fin 360000, endTime = Fin 360000, text' = lit ''a''\<rparr>])
     = [\<lparr>id' = 1, startTime = Fin 0, endTime = Fin 0, text' = lit ''a''\<rparr>]"
    by (subst srt_round_trip_raw)
       (simp_all add: stamp_of_100h stamp_values okText_samples reparsedRaw_def)
  have 4: "lit ''a'' \<noteq> lit '' a''" by (simp add: lit_def)
  have "parseSRT (generateSRT [\<lparr>id' = 1, startTime = Fin 1, endTime = Fin 2, text' = [97, 13, 98]\<rparr>])
      = parseSRT (generateSRT [\<lparr>id' = 1, startTime = Fin 1, endTime = Fin 2, text' = [97, 10, 98]\<rparr>])"
    unfolding parseSRT_def Let_def carriage_return_normalised ..
  also have "\<dots> = [\<lparr>id' = 1, startTime = Fin 1, endTime = Fin 2, text' = [97, 10, 98]\<rparr>]"
    by (subst srt_round_trip_raw)
       (simp_all add: stamp_of_1 stamp_of_2 stamp_values okText_two_lines reparsedRaw_def)
  finally have 5: "parseSRT (generateSRT [\<lparr>id' = 1, startTime = Fin 1, endTime = Fin 2, text' = [97, 13, 98]\<rparr>])
      = [\<lparr>id' = 1, startTime = Fin 1, endTime = Fin 2, text' = [97, 10, 98]\<rparr>]" .
  show ?thesis using 1 2 3 4 5 by blast
qed

lemma srtRound_samples:
  "srtRound (Fin (3 / 2)) = Fin (3 / 2)" "srtRound (Fin 2) = Fin 2"
  "srtRound (Fin (14645 / 4)) = Fin (14645 / 4)" "srtRound (Fin 3662) = Fin 3662"
  by (simp_all add: srtRound_def srtTime_def srtMillis_samples dbl_div_Fin dbl_add_Fin
        fl_millis fl_samples fl_small_ints)

theorem srt_round_trip_witness:
  "list_all goodCue
     [\<lparr>id' = 7, startTime = Fin (3 / 2), endTime = Fin 2, text' = lit ''hello''\<rparr>,
      \<lparr>id' = 9, startTime = Fin (14645 / 4), endTime = Fin 3662, text' = [116, 119, 111, 10, 108, 105, 110, 101, 115]\<rparr>]
   \<and> parseSRT (generateSRT
     [\<lparr>id' = 7, startTime = Fin (3 / 2), endTime = Fin 2, text' = lit ''hello''\<rparr>,
      \<lparr>id' = 9, startTime = Fin (14645 / 4), endTime = Fin 3662, text' = [116, 119, 111, 10, 108, 105, 110, 101, 115]\<rparr>])
     = [\<lparr>id' = 1, startTime = Fin (3 / 2), endTime = Fin 2, text' = lit ''hello''\<rparr>,
        \<lparr>id' = 2, startTime = Fin (14645 / 4), endTime = Fin 3662, text' = [116, 119, 111, 10, 108, 105, 110, 101, 115]\<rparr>]"
proof -
  have g: "list_all goodCue
     [\<lparr>id' = 7, startTime = Fin (3 / 2), endTime = Fin 2, text' = lit ''hello''\<rparr>,
      \<lparr>id' = 9, startTime = Fin (14645 / 4), endTime = Fin 3662, text' = [116, 119, 111, 10, 108, 105, 110, 101, 115]\<rparr>]"
    by (simp add: goodCue_def goodTime_def goodText_def isDouble_samples srtMillis_samples
          lit_def isWhite_def)
  show ?thesis
    using srt_round_trip[OF g] g
    by (simp add: reparsed_def srtRound_samples)
qed

end
